theory Spec2Isabelle
  imports Complex_Main
begin

section \<open>DataTable: the sort hook\<close>

text \<open>
  \<^verbatim>\<open>SortDirection = 'asc' | 'desc' | null\<close> and \<^verbatim>\<open>SortState = { key, direction }\<close> of
  the DataTable's types.
\<close>

datatype SortDirection = Asc | Desc | NoDirection

record SortState =
  key :: string
  direction :: SortDirection

text \<open>
  The state of one \<^verbatim>\<open>useSort\<close> instance: the value held by \<^verbatim>\<open>useState\<close>, and the
  arguments with which the optional \<^verbatim>\<open>onSortChange\<close> callback has been called so far,
  oldest first. Whether the callback was supplied is a parameter of the handler.
\<close>

record SortHook =
  sort :: SortState
  onSortChange_calls :: "SortState list"

definition useSort :: "SortState option \<Rightarrow> SortHook" where
  "useSort initialSort =
     \<lparr>sort = (case initialSort of
                Some s \<Rightarrow> \<lparr>key = key s, direction = direction s\<rparr>
              | None \<Rightarrow> \<lparr>key = [], direction = NoDirection\<rparr>),
      onSortChange_calls = []\<rparr>"

definition handleSort :: "bool \<Rightarrow> string \<Rightarrow> SortHook \<Rightarrow> SortHook" where
  "handleSort hasOnSortChange k h =
     (let prev = sort h;
          newDirection =
            (if key prev \<noteq> k then Asc
             else (if direction prev = Asc then Desc else Asc));
          newSort = \<lparr>key = k, direction = newDirection\<rparr>
      in \<lparr>sort = newSort,
          onSortChange_calls =
            (if hasOnSortChange then onSortChange_calls h @ [newSort]
             else onSortChange_calls h)\<rparr>)"

definition isSorted :: "SortHook \<Rightarrow> string \<Rightarrow> bool" where
  "isSorted h k = (key (sort h) = k \<and> direction (sort h) \<noteq> NoDirection)"

definition getSortDirection :: "SortHook \<Rightarrow> string \<Rightarrow> SortDirection" where
  "getSortDirection h k = (if key (sort h) = k then direction (sort h) else NoDirection)"

text \<open>A sequence of header clicks, each handled by the hook in the state the last one left.\<close>

definition headerClicks :: "bool \<Rightarrow> SortHook \<Rightarrow> string list \<Rightarrow> SortHook" where
  "headerClicks hasOnSortChange h ks = foldl (\<lambda>s k. handleSort hasOnSortChange k s) h ks"

lemma headerClicks_snoc:
  "headerClicks cb h (ks @ [k]) = handleSort cb k (headerClicks cb h ks)"
  by (simp add: headerClicks_def)

text \<open>
  C2. After any sequence of header clicks, one more click on column \<open>k\<close> stores
  \<open>(k, asc)\<close> when \<open>k\<close> is not the sorted column, and otherwise keeps the column and
  flips the direction (anything but \<open>asc\<close>, the initial \<open>null\<close> included, becomes
  \<open>asc\<close>); the stored value is also the argument of the one new call of
  \<open>onSortChange\<close>, when that callback was supplied.
\<close>

theorem handleSort_toggles:
  "sort (headerClicks cb hook (ks @ [k])) =
     (if key (sort (headerClicks cb hook ks)) \<noteq> k then \<lparr>key = k, direction = Asc\<rparr>
      else \<lparr>key = k,
            direction =
              (if direction (sort (headerClicks cb hook ks)) = Asc then Desc else Asc)\<rparr>)
   \<and> onSortChange_calls (headerClicks True hook (ks @ [k])) =
       onSortChange_calls (headerClicks True hook ks) @ [sort (headerClicks True hook (ks @ [k]))]
   \<and> onSortChange_calls (headerClicks False hook (ks @ [k])) =
       onSortChange_calls (headerClicks False hook ks)"
  unfolding headerClicks_snoc
  by (simp add: handleSort_def Let_def)

theorem handleSort_toggles_witness:
  "sort (headerClicks True (useSort None) [''name'', ''name'', ''name'', ''email'']) =
     \<lparr>key = ''email'', direction = Asc\<rparr>
   \<and> sort (headerClicks True (useSort None) [''name'', ''name'']) =
     \<lparr>key = ''name'', direction = Desc\<rparr>
   \<and> onSortChange_calls (headerClicks True (useSort None) [''name'', ''name'']) =
     [\<lparr>key = ''name'', direction = Asc\<rparr>, \<lparr>key = ''name'', direction = Desc\<rparr>]"
  using handleSort_toggles [where hook = "useSort None" and cb = True
      and ks = "[''name'', ''name'', ''name'']" and k = "''email''"]
    handleSort_toggles [where hook = "useSort None" and cb = True
      and ks = "[''name'']" and k = "''name''"]
  by (simp add: headerClicks_def handleSort_def useSort_def Let_def)


section \<open>Modal: the close button\<close>

text \<open>
  What \<^verbatim>\<open>ModalCloseButton\<close> returns: \<^verbatim>\<open>null\<close>, or a \<^verbatim>\<open>button\<close> element whose
  \<^verbatim>\<open>onClick\<close> is the given handler. Handlers are values of a type \<open>'h\<close>; the context's
  default value \<^verbatim>\<open>{}\<close> has no \<^verbatim>\<open>onClose\<close>, which is \<open>None\<close>.
\<close>

datatype 'h Rendered = RenderNull | CloseButtonElement 'h

datatype ConsoleMessage = Warn string

definition ModalCloseButton :: "'h option \<Rightarrow> 'h option \<Rightarrow> 'h Rendered \<times> ConsoleMessage list" where
  "ModalCloseButton customOnClose contextOnClose =
     (let handleClose = (case customOnClose of Some c \<Rightarrow> Some c | None \<Rightarrow> contextOnClose)
      in case handleClose of
           None \<Rightarrow>
             (RenderNull,
              [Warn ''Modal.CloseButton used outside of Modal component or without onClose handler''])
         | Some hc \<Rightarrow> (CloseButtonElement hc, []))"

text \<open>The handlers a click on the rendered output invokes, in order.\<close>

fun clickRendered :: "'h Rendered \<Rightarrow> 'h list" where
  "clickRendered RenderNull = []"
| "clickRendered (CloseButtonElement hc) = [hc]"

text \<open>
  C7. With neither a custom \<open>onClose\<close> nor a context handler the close button warns once
  on the console and renders nothing; with a handler it renders, silently, a button whose
  click invokes exactly that handler, the custom one when both are given.
\<close>

theorem ModalCloseButton_fallback:
  "ModalCloseButton None None =
     (RenderNull,
      [Warn ''Modal.CloseButton used outside of Modal component or without onClose handler''])
   \<and> clickRendered (fst (ModalCloseButton None (None :: 'h option))) = []
   \<and> ModalCloseButton (Some custom) ctx = (CloseButtonElement custom, [])
   \<and> clickRendered (fst (ModalCloseButton (Some custom) ctx)) = [custom]
   \<and> ModalCloseButton None (Some fromContext) = (CloseButtonElement fromContext, [])
   \<and> clickRendered (fst (ModalCloseButton None (Some fromContext))) = [fromContext]"
  by (simp add: ModalCloseButton_def)


section \<open>DataTable: the row selection hook\<close>

text \<open>
  Row keys are \<^verbatim>\<open>string | number\<close>; a JavaScript \<^verbatim>\<open>Set\<close> keeps the number \<open>1\<close> and the
  string \<open>'1'\<close> apart, as the two constructors do. The hook's state is the set
  \<^verbatim>\<open>selectedRowKeys\<close>. Every function below takes the state the hook holds when it is
  called and returns the state it sets together with the value it returns
  (\<open>None\<close> for \<^verbatim>\<open>undefined\<close>); calls are made one after the other, each on the state
  the last one set.
\<close>

datatype RowKey = NumKey int | StrKey string

text \<open>\<^verbatim>\<open>getRowKey ? getRowKey(row, index) : index\<close>\<close>

definition rowKeyOf :: "('row \<Rightarrow> nat \<Rightarrow> RowKey) option \<Rightarrow> 'row \<Rightarrow> nat \<Rightarrow> RowKey" where
  "rowKeyOf getRowKey row index =
     (case getRowKey of Some g \<Rightarrow> g row index | None \<Rightarrow> NumKey (int index))"

definition toggleRow ::
  "bool \<Rightarrow> ('row \<Rightarrow> nat \<Rightarrow> RowKey) option \<Rightarrow> RowKey set \<Rightarrow> 'row \<Rightarrow> nat \<Rightarrow> bool option
     \<Rightarrow> RowKey set \<times> RowKey set option" where
  "toggleRow enableSelection getRowKey selectedRowKeys row index isSelected =
     (if \<not> enableSelection then (selectedRowKeys, None)
      else
        let k = rowKeyOf getRowKey row index;
            newSelection =
              (case isSelected of
                 None \<Rightarrow>
                   (if k \<in> selectedRowKeys then selectedRowKeys - {k}
                    else insert k selectedRowKeys)
               | Some True \<Rightarrow> insert k selectedRowKeys
               | Some False \<Rightarrow> selectedRowKeys - {k})
        in (newSelection, Some newSelection))"

text \<open>The body of \<^verbatim>\<open>rows.forEach((row, index) => newSelection.add(key))\<close>, from \<open>index\<close> on.\<close>

fun addRowKeys ::
  "('row \<Rightarrow> nat \<Rightarrow> RowKey) option \<Rightarrow> 'row list \<Rightarrow> nat \<Rightarrow> RowKey set \<Rightarrow> RowKey set" where
  "addRowKeys getRowKey [] index newSelection = newSelection"
| "addRowKeys getRowKey (row # rows) index newSelection =
     addRowKeys getRowKey rows (Suc index) (insert (rowKeyOf getRowKey row index) newSelection)"

definition toggleAllRows ::
  "bool \<Rightarrow> ('row \<Rightarrow> nat \<Rightarrow> RowKey) option \<Rightarrow> RowKey set \<Rightarrow> 'row list \<Rightarrow> bool
     \<Rightarrow> RowKey set \<times> RowKey set option" where
  "toggleAllRows enableSelection getRowKey selectedRowKeys rows isSelected =
     (if \<not> enableSelection then (selectedRowKeys, None)
      else
        let newSelection = (if isSelected then addRowKeys getRowKey rows 0 {} else {})
        in (newSelection, Some newSelection))"

definition clearSelection :: "RowKey set \<Rightarrow> RowKey set" where
  "clearSelection selectedRowKeys = {}"

definition isRowSelected ::
  "bool \<Rightarrow> ('row \<Rightarrow> nat \<Rightarrow> RowKey) option \<Rightarrow> RowKey set \<Rightarrow> 'row \<Rightarrow> nat \<Rightarrow> bool" where
  "isRowSelected enableSelection getRowKey selectedRowKeys row index =
     (if \<not> enableSelection then False
      else rowKeyOf getRowKey row index \<in> selectedRowKeys)"

lemma addRowKeys_eq:
  "addRowKeys g rows i s = s \<union> {rowKeyOf g (rows ! j) (i + j) |j. j < length rows}"
proof (induction rows arbitrary: i s)
  case Nil
  show ?case by simp
next
  case (Cons row rows)
  have "{rowKeyOf g ((row # rows) ! j) (i + j) |j. j < length (row # rows)} =
        insert (rowKeyOf g row i) {rowKeyOf g (rows ! j) (Suc i + j) |j. j < length rows}"
    (is "?L = ?R")
  proof (rule set_eqI)
    fix x
    show "x \<in> ?L \<longleftrightarrow> x \<in> ?R"
    proof
      assume "x \<in> ?L"
      then obtain j where j: "j < length (row # rows)" "x = rowKeyOf g ((row # rows) ! j) (i + j)"
        by blast
      show "x \<in> ?R"
      proof (cases j)
        case 0
        with j show ?thesis by simp
      next
        case (Suc j')
        with j have "j' < length rows" "x = rowKeyOf g (rows ! j') (Suc i + j')" by simp_all
        then show ?thesis by blast
      qed
    next
      assume "x \<in> ?R"
      then consider "x = rowKeyOf g row i"
        | j' where "j' < length rows" "x = rowKeyOf g (rows ! j') (Suc i + j')"
        by blast
      then show "x \<in> ?L"
      proof cases
        case 1
        then have "0 < length (row # rows) \<and> x = rowKeyOf g ((row # rows) ! 0) (i + 0)" by simp
        then show ?thesis by blast
      next
        case 2
        then have "Suc j' < length (row # rows)
            \<and> x = rowKeyOf g ((row # rows) ! Suc j') (i + Suc j')" by simp
        then show ?thesis by blast
      qed
    qed
  qed
  with Cons.IH [of "Suc i" "insert (rowKeyOf g row i) s"] show ?case by auto
qed

text \<open>
  C9. With selection disabled \<open>toggleRow\<close> and \<open>toggleAllRows\<close> leave the selection as it
  is and \<open>isRowSelected\<close> is false for every row. With selection enabled, toggling the same
  row twice without a flag gives back the selection; a flag forces the row's key in or
  out; \<open>toggleAllRows rows true\<close> makes the selection exactly the keys of \<open>rows\<close>, and
  \<open>toggleAllRows rows false\<close> empties it.
\<close>

theorem useRowSelection_consistent:
  "fst (toggleRow False g sel row i flag) = sel
   \<and> fst (toggleAllRows False g sel rows b) = sel
   \<and> isRowSelected False g sel row i = False
   \<and> fst (toggleRow True g (fst (toggleRow True g sel row i None)) row i None) = sel
   \<and> fst (toggleRow True g sel row i (Some True)) = insert (rowKeyOf g row i) sel
   \<and> isRowSelected True g (fst (toggleRow True g sel row i (Some True))) row i = True
   \<and> fst (toggleRow True g sel row i (Some False)) = sel - {rowKeyOf g row i}
   \<and> isRowSelected True g (fst (toggleRow True g sel row i (Some False))) row i = False
   \<and> fst (toggleAllRows True g sel rows True) = {rowKeyOf g (rows ! j) j |j. j < length rows}
   \<and> fst (toggleAllRows True g sel rows False) = {}"
proof -
  have twice: "fst (toggleRow True g (fst (toggleRow True g sel row i None)) row i None) = sel"
    by (auto simp: toggleRow_def Let_def)
  have allRows: "fst (toggleAllRows True g sel rows True) =
      {rowKeyOf g (rows ! j) j |j. j < length rows}"
    by (simp add: toggleAllRows_def addRowKeys_eq Let_def)
  show ?thesis
    using twice allRows
    by (simp add: toggleRow_def toggleAllRows_def isRowSelected_def Let_def)
qed


section \<open>Button and DayCell: click handlers\<close>

text \<open>
  A callback is a function from its argument to the effect it has on the application, a
  value of a type \<open>'c\<close>; a handler returns the effects of the callbacks it called, in
  order, so that a handler that calls nothing returns \<open>[]\<close>. An optional prop is an
  \<open>option\<close>: \<^verbatim>\<open>disabled\<close> may be left \<^verbatim>\<open>undefined\<close>, \<^verbatim>\<open>loading\<close> defaults to \<^verbatim>\<open>false\<close>.
\<close>

record ('e, 'c) ButtonProps =
  disabled :: "bool option"
  loading :: bool
  onClick :: "('e \<Rightarrow> 'c) option"

text \<open>\<^verbatim>\<open>const isDisabled = disabled || loading\<close>\<close>

definition Button_isDisabled :: "('e, 'c) ButtonProps \<Rightarrow> bool" where
  "Button_isDisabled props = (case disabled props of Some True \<Rightarrow> True | _ \<Rightarrow> loading props)"

definition Button_handleClick :: "('e, 'c) ButtonProps \<Rightarrow> 'e \<Rightarrow> 'c list" where
  "Button_handleClick props e =
     (if loading props then []
      else (case onClick props of Some f \<Rightarrow> [f e] | None \<Rightarrow> []))"

type_synonym Date = int

record 'c DayCellProps =
  date :: Date
  isDisabled :: bool
  isFocusable :: bool
  onClick_DayCell :: "(Date \<Rightarrow> 'c) option"
  onMouseEnter :: "(Date \<Rightarrow> 'c) option"
  onMouseLeave :: "(Date \<Rightarrow> 'c) option"
  onFocus :: "(Date \<Rightarrow> 'c) option"

definition DayCell_handleClick :: "'c DayCellProps \<Rightarrow> 'c list" where
  "DayCell_handleClick props =
     (case onClick_DayCell props of
        Some f \<Rightarrow> (if \<not> isDisabled props then [f (date props)] else [])
      | None \<Rightarrow> [])"

definition DayCell_handleMouseEnter :: "'c DayCellProps \<Rightarrow> 'c list" where
  "DayCell_handleMouseEnter props =
     (case onMouseEnter props of
        Some f \<Rightarrow> (if \<not> isDisabled props then [f (date props)] else [])
      | None \<Rightarrow> [])"

definition DayCell_handleMouseLeave :: "'c DayCellProps \<Rightarrow> 'c list" where
  "DayCell_handleMouseLeave props =
     (case onMouseLeave props of
        Some f \<Rightarrow> (if \<not> isDisabled props then [f (date props)] else [])
      | None \<Rightarrow> [])"

definition DayCell_handleFocus :: "'c DayCellProps \<Rightarrow> 'c list" where
  "DayCell_handleFocus props =
     (case onFocus props of
        Some f \<Rightarrow> (if isFocusable props then [f (date props)] else [])
      | None \<Rightarrow> [])"

text \<open>
  The cell's \<^verbatim>\<open>onKeyDown\<close>: space and Enter act as a click unless the cell is disabled.
  The result is whether \<^verbatim>\<open>preventDefault\<close> was called, and the effects.
\<close>

definition DayCell_onKeyDown :: "'c DayCellProps \<Rightarrow> string \<Rightarrow> bool \<times> 'c list" where
  "DayCell_onKeyDown props k =
     (if (k = '' '' \<or> k = ''Enter'') \<and> \<not> isDisabled props
      then (True, DayCell_handleClick props)
      else (False, []))"

text \<open>
  What \<^verbatim>\<open>Button\<close> renders, as far as a click goes:
  \<^verbatim>\<open><button disabled={isDisabled} onClick={handleClick}>\<close>. (\<^verbatim>\<open>disabled\<close> and
  \<^verbatim>\<open>onClick\<close> are taken out of the props, so the spread of the other props sets neither.)
\<close>

record ('e, 'c) ButtonElement =
  disabledAttribute :: bool
  onClickListener :: "'e \<Rightarrow> 'c list"

definition Button :: "('e, 'c) ButtonProps \<Rightarrow> ('e, 'c) ButtonElement" where
  "Button props =
     \<lparr>disabledAttribute = Button_isDisabled props, onClickListener = Button_handleClick props\<rparr>"

text \<open>
  The browser's part: a click on a button whose \<^verbatim>\<open>disabled\<close> attribute is set
  dispatches no click event, so no listener runs; on any other button the listener runs
  with the event. The cell that \<^verbatim>\<open>DayCell\<close> renders is a \<^verbatim>\<open>td\<close>, which has no such
  attribute: its listeners always run.
\<close>

definition clickButton :: "('e, 'c) ButtonElement \<Rightarrow> 'e \<Rightarrow> 'c list" where
  "clickButton el e = (if disabledAttribute el then [] else onClickListener el e)"

text \<open>
  C5. A click on a Button whose \<open>disabled\<close> or \<open>loading\<close> prop is true calls no callback
  (and the handler, on its own, calls none when \<open>loading\<close> is true), while a click on a
  Button with neither calls \<open>onClick\<close> once, with the event. A DayCell whose \<open>isDisabled\<close>
  flag is true calls no callback from its click handler, nor from its key, mouse-enter
  and mouse-leave handlers.
\<close>

theorem disabled_click_ignored:
  "(disabled bp = Some True \<or> loading bp \<longrightarrow> clickButton (Button bp) e = [])
   \<and> (loading bp \<longrightarrow> Button_handleClick bp e = [])
   \<and> (disabled bp \<noteq> Some True \<and> \<not> loading bp \<and> onClick bp = Some f \<longrightarrow>
        clickButton (Button bp) e = [f e])
   \<and> (isDisabled cp \<longrightarrow>
        DayCell_handleClick cp = [] \<and> DayCell_onKeyDown cp k = (False, [])
        \<and> DayCell_handleMouseEnter cp = [] \<and> DayCell_handleMouseLeave cp = [])"
  by (auto simp: clickButton_def Button_def Button_handleClick_def Button_isDisabled_def
      DayCell_handleClick_def DayCell_onKeyDown_def DayCell_handleMouseEnter_def
      DayCell_handleMouseLeave_def split: option.splits bool.splits)

theorem disabled_click_ignored_witness:
  "clickButton (Button \<lparr>disabled = Some True, loading = False, onClick = Some Suc\<rparr>) 7 = []
   \<and> clickButton (Button \<lparr>disabled = None, loading = True, onClick = Some Suc\<rparr>) 7 = []
   \<and> Button_handleClick \<lparr>disabled = None, loading = True, onClick = Some Suc\<rparr> 7 = []
   \<and> clickButton (Button \<lparr>disabled = None, loading = False, onClick = Some Suc\<rparr>) 7 = [8]
   \<and> DayCell_handleClick \<lparr>date = 0, isDisabled = True, isFocusable = True,
        onClick_DayCell = Some nat, onMouseEnter = None, onMouseLeave = None, onFocus = None\<rparr> = []
   \<and> DayCell_onKeyDown \<lparr>date = 0, isDisabled = True, isFocusable = True,
        onClick_DayCell = Some nat, onMouseEnter = None, onMouseLeave = None, onFocus = None\<rparr>
        ''Enter'' = (False, [])"
  using disabled_click_ignored [where bp = "\<lparr>disabled = Some True, loading = False, onClick = Some Suc\<rparr>"
      and e = 7 and f = Suc
      and cp = "\<lparr>date = 0, isDisabled = True, isFocusable = True,
        onClick_DayCell = Some nat, onMouseEnter = None, onMouseLeave = None, onFocus = None\<rparr>"
      and k = "''Enter''"]
    disabled_click_ignored [where bp = "\<lparr>disabled = None, loading = True, onClick = Some Suc\<rparr>"
      and e = 7 and f = Suc
      and cp = "\<lparr>date = 0, isDisabled = True, isFocusable = True,
        onClick_DayCell = Some nat, onMouseEnter = None, onMouseLeave = None, onFocus = None\<rparr>"
      and k = "''Enter''"]
    disabled_click_ignored [where bp = "\<lparr>disabled = None, loading = False, onClick = Some Suc\<rparr>"
      and e = 7 and f = Suc
      and cp = "\<lparr>date = 0, isDisabled = True, isFocusable = True,
        onClick_DayCell = Some nat, onMouseEnter = None, onMouseLeave = None, onFocus = None\<rparr>"
      and k = "''Enter''"]
  by simp


section \<open>DateRangePicker: comparing dates\<close>

text \<open>
  A \<^verbatim>\<open>Date\<close> is modelled by its time value, the number of milliseconds since the epoch,
  an integer. The models are of calendar dates, as the data model has them: the one
  \<^verbatim>\<open>Date\<close> object that denotes none (its time value is \<^verbatim>\<open>NaN\<close>) is left out. A
  nullable or optional date is an \<open>option\<close>.

  \<^verbatim>\<open>isBefore\<close> and \<^verbatim>\<open>isAfter\<close> are date-fns': they compare the two time values.
\<close>

definition isBefore :: "Date \<Rightarrow> Date \<Rightarrow> bool" where
  "isBefore d dateToCompare = (d < dateToCompare)"

definition isAfter :: "Date \<Rightarrow> Date \<Rightarrow> bool" where
  "isAfter d dateToCompare = (d > dateToCompare)"

record DateRangeValue =
  from_date :: "Date option"
  to_date :: "Date option"

definition isDateInRange :: "Date \<Rightarrow> DateRangeValue \<Rightarrow> bool" where
  "isDateInRange d dateRange =
     (case from_date dateRange of
        None \<Rightarrow> False
      | Some f \<Rightarrow>
          (case to_date dateRange of
             None \<Rightarrow> False
           | Some t \<Rightarrow>
               (let start = (if isBefore f t then f else t);
                    end_date = (if isAfter f t then f else t)
                in \<not> isBefore d start \<and> \<not> isAfter d end_date)))"

text \<open>
  \<^verbatim>\<open>DisabledDateStrategy = 'none' | 'past' | 'future' | ((date: Date) => boolean)\<close>
\<close>

datatype DisabledDateStrategy = StrategyNone | Past | Future | StrategyFn "Date \<Rightarrow> bool"

text \<open>
  \<^verbatim>\<open>isDateDisabled\<close> reads the clock through \<^verbatim>\<open>new Date()\<close>; the time it reads is the
  first argument, \<open>now\<close>.
\<close>

definition isDateDisabled ::
  "Date \<Rightarrow> Date \<Rightarrow> DisabledDateStrategy option \<Rightarrow> Date option \<Rightarrow> Date option
     \<Rightarrow> (Date \<Rightarrow> bool) option \<Rightarrow> bool" where
  "isDateDisabled now d strategy minDate maxDate customPredicate =
     (if (case customPredicate of Some p \<Rightarrow> p d | None \<Rightarrow> False) then True
      else if (case minDate of Some m \<Rightarrow> isBefore d m | None \<Rightarrow> False) then True
      else if (case maxDate of Some m \<Rightarrow> isAfter d m | None \<Rightarrow> False) then True
      else (case strategy of
              Some StrategyNone \<Rightarrow> False
            | Some Past \<Rightarrow> isBefore d now
            | Some Future \<Rightarrow> isAfter d now
            | Some (StrategyFn f) \<Rightarrow> f d
            | None \<Rightarrow> False))"

text \<open>
  C1. A date is disabled exactly when the custom predicate holds of it, or it is before
  \<open>minDate\<close>, or after \<open>maxDate\<close>, or the strategy matches: \<open>past\<close> and the date is before
  the current time, \<open>future\<close> and it is after, or a function that holds of it. The strategy
  \<open>none\<close>, and every argument left out, contribute nothing.
\<close>

theorem isDateDisabled_disjunction:
  "isDateDisabled now d strategy minDate maxDate customPredicate \<longleftrightarrow>
     (\<exists>p. customPredicate = Some p \<and> p d)
     \<or> (\<exists>m. minDate = Some m \<and> d < m)
     \<or> (\<exists>m. maxDate = Some m \<and> m < d)
     \<or> (strategy = Some Past \<and> d < now)
     \<or> (strategy = Some Future \<and> now < d)
     \<or> (\<exists>f. strategy = Some (StrategyFn f) \<and> f d)"
  by (auto simp: isDateDisabled_def isBefore_def isAfter_def
      split: option.splits DisabledDateStrategy.splits)

text \<open>
  C3. For a range with both ends set, \<open>isDateInRange\<close> does not depend on the order of the
  ends, holds of both ends, and holds of \<open>d\<close> exactly when \<open>d\<close> lies between the smaller
  and the larger end, both included; with an end missing it is false.
\<close>

theorem isDateInRange_inclusive_symmetric:
  "isDateInRange d \<lparr>from_date = Some a, to_date = Some b\<rparr> =
     isDateInRange d \<lparr>from_date = Some b, to_date = Some a\<rparr>
   \<and> isDateInRange a \<lparr>from_date = Some a, to_date = Some b\<rparr>
   \<and> isDateInRange b \<lparr>from_date = Some a, to_date = Some b\<rparr>
   \<and> (isDateInRange d \<lparr>from_date = Some a, to_date = Some b\<rparr> \<longleftrightarrow>
        min a b \<le> d \<and> d \<le> max a b)
   \<and> isDateInRange d \<lparr>from_date = None, to_date = t\<rparr> = False
   \<and> isDateInRange d \<lparr>from_date = f, to_date = None\<rparr> = False"
  by (auto simp: isDateInRange_def isBefore_def isAfter_def Let_def split: option.splits)


section \<open>DataTable: the pagination hook\<close>

text \<open>
  The optional \<^verbatim>\<open>config\<close> carries \<^verbatim>\<open>page\<close>, \<^verbatim>\<open>pageSize\<close>, \<^verbatim>\<open>total\<close> and two callbacks.
  Page numbers and sizes are integers. The hook's state is the configuration it was
  given, its two \<^verbatim>\<open>useState\<close> values, and the arguments with which each of the two
  callbacks of the configuration has been called so far, oldest first.
\<close>

record PaginationConfig =
  page :: int
  pageSize :: int
  total :: int

record PaginationHook =
  config :: "PaginationConfig option"
  localPage :: int
  localPageSize :: int
  onPageChange_calls :: "int list"
  onPageSizeChange_calls :: "int list"

definition usePagination :: "PaginationConfig option \<Rightarrow> PaginationHook" where
  "usePagination cfg =
     \<lparr>config = cfg, localPage = 1, localPageSize = 10,
      onPageChange_calls = [], onPageSizeChange_calls = []\<rparr>"

text \<open>\<^verbatim>\<open>config?.page ?? localPage\<close>, \<^verbatim>\<open>config?.pageSize ?? localPageSize\<close>, \<^verbatim>\<open>config?.total ?? 0\<close>\<close>

definition pageOf :: "PaginationHook \<Rightarrow> int" where
  "pageOf h = (case config h of Some c \<Rightarrow> page c | None \<Rightarrow> localPage h)"

definition pageSizeOf :: "PaginationHook \<Rightarrow> int" where
  "pageSizeOf h = (case config h of Some c \<Rightarrow> pageSize c | None \<Rightarrow> localPageSize h)"

definition totalOf :: "PaginationHook \<Rightarrow> int" where
  "totalOf h = (case config h of Some c \<Rightarrow> total c | None \<Rightarrow> 0)"

text \<open>
  \<^verbatim>\<open>Math.ceil(total / pageSize)\<close>, the quotient taken in the reals. (With a page size of
  zero JavaScript's quotient is infinite or \<^verbatim>\<open>NaN\<close>, which no integer models; the
  theorems below are about page sizes of at least one.)
\<close>

definition totalPages :: "PaginationHook \<Rightarrow> int" where
  "totalPages h = \<lceil>real_of_int (totalOf h) / real_of_int (pageSizeOf h)\<rceil>"

definition handlePageChange :: "int \<Rightarrow> PaginationHook \<Rightarrow> PaginationHook" where
  "handlePageChange newPage h =
     (let clampedPage = max 1 (min newPage (totalPages h))
      in case config h of
           Some c \<Rightarrow> h\<lparr>onPageChange_calls := onPageChange_calls h @ [clampedPage]\<rparr>
         | None \<Rightarrow> h\<lparr>localPage := clampedPage\<rparr>)"

definition handlePageSizeChange :: "int \<Rightarrow> PaginationHook \<Rightarrow> PaginationHook" where
  "handlePageSizeChange newSize h =
     (case config h of
        Some c \<Rightarrow>
          h\<lparr>onPageSizeChange_calls := onPageSizeChange_calls h @ [newSize],
            onPageChange_calls := onPageChange_calls h @ [1]\<rparr>
      | None \<Rightarrow> h\<lparr>localPageSize := newSize, localPage := 1\<rparr>)"

definition handleNextPage :: "PaginationHook \<Rightarrow> PaginationHook" where
  "handleNextPage h =
     (if pageOf h < totalPages h then handlePageChange (pageOf h + 1) h else h)"

definition handlePrevPage :: "PaginationHook \<Rightarrow> PaginationHook" where
  "handlePrevPage h = (if pageOf h > 1 then handlePageChange (pageOf h - 1) h else h)"

definition canNextPage :: "PaginationHook \<Rightarrow> bool" where
  "canNextPage h = (pageOf h < totalPages h)"

definition canPrevPage :: "PaginationHook \<Rightarrow> bool" where
  "canPrevPage h = (pageOf h > 1)"

definition startIndex :: "PaginationHook \<Rightarrow> int" where
  "startIndex h = (pageOf h - 1) * pageSizeOf h + 1"

definition endIndex :: "PaginationHook \<Rightarrow> int" where
  "endIndex h = min (pageOf h * pageSizeOf h) (totalOf h)"

text \<open>
  The four handlers the hook returns, and the pages one call of a handler delivers
  through \<^verbatim>\<open>onPageChange\<close>: the calls it adds to those made before.
\<close>

datatype PaginationAction = SetPage int | SetPageSize int | NextPage | PrevPage

fun perform :: "PaginationAction \<Rightarrow> PaginationHook \<Rightarrow> PaginationHook" where
  "perform (SetPage p) h = handlePageChange p h"
| "perform (SetPageSize n) h = handlePageSizeChange n h"
| "perform NextPage h = handleNextPage h"
| "perform PrevPage h = handlePrevPage h"

definition deliveredPages :: "PaginationAction \<Rightarrow> PaginationHook \<Rightarrow> int list" where
  "deliveredPages a h = drop (length (onPageChange_calls h)) (onPageChange_calls (perform a h))"

lemma totalPages_div:
  "totalPages h = - ((- totalOf h) div pageSizeOf h)"
  by (simp add: totalPages_def ceiling_divide_eq_div)

lemma totalPages_bounds:
  assumes "1 \<le> pageSizeOf h"
  shows "(totalPages h - 1) * pageSizeOf h < totalOf h" and "totalOf h \<le> totalPages h * pageSizeOf h"
proof -
  define t where "t = totalOf h"
  define s where "s = pageSizeOf h"
  have s: "0 < s" using assms by (simp add: s_def)
  have tp: "totalPages h = - ((- t) div s)" by (simp add: totalPages_div t_def s_def)
  have eq: "((- t) div s) * s + (- t) mod s = - t" by (rule div_mult_mod_eq)
  have m0: "0 \<le> (- t) mod s" using s by (rule pos_mod_sign)
  have m1: "(- t) mod s < s" using s by (rule pos_mod_bound)
  have lo: "((- t) div s) * s \<le> - t" using eq m0 by linarith
  have hi: "- t < ((- t) div s) * s + s" using eq m1 by linarith
  show "(totalPages h - 1) * pageSizeOf h < totalOf h"
    using hi unfolding tp t_def [symmetric] s_def [symmetric] by (simp add: algebra_simps)
  show "totalOf h \<le> totalPages h * pageSizeOf h"
    using lo unfolding tp t_def [symmetric] s_def [symmetric] by (simp add: algebra_simps)
qed


lemma deliveredPages_cases:
  "deliveredPages a h =
     (case config h of
        None \<Rightarrow> []
      | Some c \<Rightarrow>
          (case a of
             SetPage p \<Rightarrow> [max 1 (min p (totalPages h))]
           | SetPageSize n \<Rightarrow> [1]
           | NextPage \<Rightarrow>
               (if pageOf h < totalPages h then [max 1 (min (pageOf h + 1) (totalPages h))] else [])
           | PrevPage \<Rightarrow>
               (if pageOf h > 1 then [max 1 (min (pageOf h - 1) (totalPages h))] else [])))"
  by (cases a)
    (simp_all add: deliveredPages_def handlePageChange_def handlePageSizeChange_def
      handleNextPage_def handlePrevPage_def Let_def split: option.splits)

text \<open>
  C4. With a total of at least zero and a page size of at least one, \<open>totalPages\<close> is the
  ceiling of \<open>total / pageSize\<close> (the least number of pages of that size that hold
  \<open>total\<close> rows), \<open>startIndex\<close> is \<open>(page - 1) * pageSize + 1\<close> and \<open>endIndex\<close> is
  \<open>min (page * pageSize) total\<close>; \<open>setPage p\<close> delivers the one value
  \<open>max 1 (min p totalPages)\<close> (to \<open>onPageChange\<close> when a configuration is given, to the
  local page otherwise); \<open>nextPage\<close> does nothing unless \<open>page < totalPages\<close> and
  \<open>prevPage\<close> nothing unless \<open>page > 1\<close>; and when \<open>totalPages\<close> is at least one, every
  page that any of the handlers delivers through \<open>onPageChange\<close> lies between one and
  \<open>totalPages\<close>.
\<close>

theorem usePagination_arithmetic:
  assumes "0 \<le> totalOf h" and "1 \<le> pageSizeOf h"
  shows "totalPages h = \<lceil>real_of_int (totalOf h) / real_of_int (pageSizeOf h)\<rceil>
    \<and> (totalPages h - 1) * pageSizeOf h < totalOf h
    \<and> totalOf h \<le> totalPages h * pageSizeOf h
    \<and> 0 \<le> totalPages h
    \<and> startIndex h = (pageOf h - 1) * pageSizeOf h + 1
    \<and> endIndex h = min (pageOf h * pageSizeOf h) (totalOf h)
    \<and> (config h \<noteq> None \<longrightarrow>
         onPageChange_calls (handlePageChange p h) =
           onPageChange_calls h @ [max 1 (min p (totalPages h))])
    \<and> (config h = None \<longrightarrow> pageOf (handlePageChange p h) = max 1 (min p (totalPages h)))
    \<and> (\<not> pageOf h < totalPages h \<longrightarrow> handleNextPage h = h)
    \<and> (pageOf h < totalPages h \<longrightarrow> handleNextPage h = handlePageChange (pageOf h + 1) h)
    \<and> (\<not> pageOf h > 1 \<longrightarrow> handlePrevPage h = h)
    \<and> (pageOf h > 1 \<longrightarrow> handlePrevPage h = handlePageChange (pageOf h - 1) h)
    \<and> (1 \<le> totalPages h \<longrightarrow>
         (\<forall>x \<in> set (deliveredPages a h). 1 \<le> x \<and> x \<le> totalPages h))"
proof -
  have b1: "(totalPages h - 1) * pageSizeOf h < totalOf h"
    and b2: "totalOf h \<le> totalPages h * pageSizeOf h"
    using totalPages_bounds [OF assms(2)] by simp_all
  have nonneg: "0 \<le> totalPages h"
  proof -
    have "(- totalOf h) div pageSizeOf h \<le> 0"
      using assms by (intro div_nonpos_pos_le0) simp_all
    then show ?thesis by (simp add: totalPages_div)
  qed
  have c0: "totalPages h = \<lceil>real_of_int (totalOf h) / real_of_int (pageSizeOf h)\<rceil>"
    by (simp only: totalPages_def)
  have setp: "config h \<noteq> None \<longrightarrow>
      onPageChange_calls (handlePageChange p h) =
        onPageChange_calls h @ [max 1 (min p (totalPages h))]"
    by (auto simp: handlePageChange_def Let_def)
  have setl: "config h = None \<longrightarrow> pageOf (handlePageChange p h) = max 1 (min p (totalPages h))"
    by (simp add: handlePageChange_def pageOf_def totalPages_def totalOf_def pageSizeOf_def Let_def)
  have deliv: "1 \<le> totalPages h \<longrightarrow>
      (\<forall>x \<in> set (deliveredPages a h). 1 \<le> x \<and> x \<le> totalPages h)"
    by (cases a) (auto simp: deliveredPages_cases split: option.splits)
  have nx: "(\<not> pageOf h < totalPages h \<longrightarrow> handleNextPage h = h)
    \<and> (pageOf h < totalPages h \<longrightarrow> handleNextPage h = handlePageChange (pageOf h + 1) h)"
    by (simp add: handleNextPage_def)
  have pv: "(\<not> pageOf h > 1 \<longrightarrow> handlePrevPage h = h)
    \<and> (pageOf h > 1 \<longrightarrow> handlePrevPage h = handlePageChange (pageOf h - 1) h)"
    by (simp add: handlePrevPage_def)
  have ix: "startIndex h = (pageOf h - 1) * pageSizeOf h + 1
    \<and> endIndex h = min (pageOf h * pageSizeOf h) (totalOf h)"
    by (simp add: startIndex_def endIndex_def)
  show ?thesis
    using c0 b1 b2 nonneg setp setl deliv nx pv ix by blast
qed


theorem usePagination_arithmetic_witness:
  "totalPages (usePagination (Some \<lparr>page = 2, pageSize = 10, total = 35\<rparr>)) = 4
   \<and> startIndex (usePagination (Some \<lparr>page = 2, pageSize = 10, total = 35\<rparr>)) = 11
   \<and> endIndex (usePagination (Some \<lparr>page = 2, pageSize = 10, total = 35\<rparr>)) = 20
   \<and> onPageChange_calls
        (handlePageChange 9 (usePagination (Some \<lparr>page = 2, pageSize = 10, total = 35\<rparr>))) = [4]
   \<and> deliveredPages NextPage (usePagination (Some \<lparr>page = 2, pageSize = 10, total = 35\<rparr>)) = [3]
   \<and> list_all (\<lambda>x. 1 \<le> x \<and> x \<le> 4)
        (deliveredPages NextPage (usePagination (Some \<lparr>page = 2, pageSize = 10, total = 35\<rparr>)))"
proof -
  let ?h = "usePagination (Some \<lparr>page = 2, pageSize = 10, total = 35\<rparr>)"
  have t: "0 \<le> totalOf ?h" by (simp add: totalOf_def usePagination_def)
  have s: "1 \<le> pageSizeOf ?h" by (simp add: pageSizeOf_def usePagination_def)
  have tp: "totalPages ?h = 4"
    by (simp add: totalPages_div totalOf_def pageSizeOf_def usePagination_def)
  have pg: "pageOf ?h = 2" by (simp add: pageOf_def usePagination_def)
  have cf: "config ?h \<noteq> None" by (simp add: usePagination_def)
  have cl: "onPageChange_calls ?h = []" by (simp add: usePagination_def)
  have cs: "config ?h = Some \<lparr>page = 2, pageSize = 10, total = 35\<rparr>"
    by (simp add: usePagination_def)
  have dl: "deliveredPages NextPage ?h = [3]"
    by (simp add: deliveredPages_cases cs tp pg)
  show ?thesis
    using usePagination_arithmetic [OF t s, where p = 9 and a = NextPage] tp pg cf cl dl
    by (simp add: totalOf_def pageSizeOf_def usePagination_def)
qed


section \<open>Modal: the focus trap\<close>

text \<open>
  DOM elements are values of a type \<open>'e\<close>. The state the hook works on:
  \<^verbatim>\<open>document.activeElement\<close> (\<open>None\<close> for \<^verbatim>\<open>null\<close>), the \<^verbatim>\<open>keydown\<close> listener the effect
  has installed on the document, given by the \<^verbatim>\<open>firstElement\<close> and \<^verbatim>\<open>lastElement\<close> its
  closure holds, and the hook's ref \<^verbatim>\<open>previouslyFocusedElement\<close>.
\<close>

record 'e FocusState =
  activeElement :: "'e option"
  keydownListener :: "('e \<times> 'e) option"
  previouslyFocusedElement :: "'e option"

record KeyboardEvent =
  eventKey :: string
  shiftKey :: bool

text \<open>
  \<^verbatim>\<open>element.focus()\<close>. An element that is disabled or hidden cannot take the focus, and
  \<^verbatim>\<open>focus()\<close> on it does nothing; \<open>canFocus\<close> tells which elements of the page can.
\<close>

definition focus :: "('e \<Rightarrow> bool) \<Rightarrow> 'e \<Rightarrow> 'e FocusState \<Rightarrow> 'e FocusState" where
  "focus canFocus el s = (if canFocus el then s\<lparr>activeElement := Some el\<rparr> else s)"

definition handleKeyDown ::
  "('e \<Rightarrow> bool) \<Rightarrow> 'e \<times> 'e \<Rightarrow> KeyboardEvent \<Rightarrow> 'e FocusState \<Rightarrow> 'e FocusState \<times> bool" where
  "handleKeyDown canFocus closure e s =
     (let firstElement = fst closure; lastElement = snd closure
      in if eventKey e \<noteq> ''Tab'' then (s, False)
         else if shiftKey e then
           (if activeElement s = Some firstElement then (focus canFocus lastElement s, True)
            else (s, False))
         else
           (if activeElement s = Some lastElement then (focus canFocus firstElement s, True)
            else (s, False)))"

text \<open>
  The body of the effect. \<open>container\<close> is \<open>None\<close> when \<^verbatim>\<open>containerRef.current\<close> is
  \<^verbatim>\<open>null\<close>, and otherwise the elements that \<^verbatim>\<open>querySelectorAll\<close> finds in the container
  for the selector
  \<^verbatim>\<open>button, [href], input, select, textarea, [tabindex]:not([tabindex="-1"])\<close>, in document
  order. The selector goes by tag and attribute: it finds a disabled button or a hidden
  input like any other. The second component tells whether the effect returned its
  cleanup.
\<close>

definition useFocusTrap_effect ::
  "('e \<Rightarrow> bool) \<Rightarrow> bool \<Rightarrow> bool \<Rightarrow> 'e list option \<Rightarrow> 'e FocusState
     \<Rightarrow> 'e FocusState \<times> bool" where
  "useFocusTrap_effect canFocus isOpen trapFocus container s =
     (if \<not> isOpen \<or> \<not> trapFocus then (s, False)
      else
        (case container of
           None \<Rightarrow> (s, False)
         | Some focusableElements \<Rightarrow>
             (let s1 = s\<lparr>previouslyFocusedElement := activeElement s\<rparr>
              in case focusableElements of
                   [] \<Rightarrow> (s1, False)
                 | firstElement # _ \<Rightarrow>
                     (let lastElement = last focusableElements;
                          s2 = focus canFocus firstElement s1
                      in (s2\<lparr>keydownListener := Some (firstElement, lastElement)\<rparr>, True)))))"

definition useFocusTrap_cleanup :: "('e \<Rightarrow> bool) \<Rightarrow> 'e FocusState \<Rightarrow> 'e FocusState" where
  "useFocusTrap_cleanup canFocus s =
     (let s1 = s\<lparr>keydownListener := None\<rparr>
      in case previouslyFocusedElement s1 of
           Some el \<Rightarrow> focus canFocus el s1
         | None \<Rightarrow> s1)"

text \<open>
  The browser's part. A key press runs the installed listener; a Tab key whose default
  was not prevented then moves the focus along the page's sequential focus navigation
  order, forwards, or backwards with Shift, and off the page's elements (\<open>None\<close>) past
  either end. That order is the elements of the page, in the order \<open>pageElements\<close>
  lists them, that can take the focus.
\<close>

fun nextInOrder :: "'e list \<Rightarrow> 'e \<Rightarrow> 'e option" where
  "nextInOrder (x # y # xs) a = (if x = a then Some y else nextInOrder (y # xs) a)"
| "nextInOrder _ a = None"

definition tabOrder :: "('e \<Rightarrow> bool) \<Rightarrow> 'e list \<Rightarrow> 'e list" where
  "tabOrder canFocus pageElements = filter canFocus pageElements"

definition sequentialNavigation ::
  "('e \<Rightarrow> bool) \<Rightarrow> 'e list \<Rightarrow> bool \<Rightarrow> 'e FocusState \<Rightarrow> 'e FocusState" where
  "sequentialNavigation canFocus pageElements backwards s =
     (case activeElement s of
        None \<Rightarrow> s
      | Some a \<Rightarrow>
          s\<lparr>activeElement :=
              nextInOrder
                (if backwards then rev (tabOrder canFocus pageElements)
                 else tabOrder canFocus pageElements) a\<rparr>)"

definition pressKey ::
  "('e \<Rightarrow> bool) \<Rightarrow> 'e list \<Rightarrow> KeyboardEvent \<Rightarrow> 'e FocusState \<Rightarrow> 'e FocusState" where
  "pressKey canFocus pageElements e s =
     (let handled = (case keydownListener s of
                       Some closure \<Rightarrow> handleKeyDown canFocus closure e s
                     | None \<Rightarrow> (s, False))
      in if snd handled \<or> eventKey e \<noteq> ''Tab'' then fst handled
         else sequentialNavigation canFocus pageElements (shiftKey e) (fst handled))"

definition pressKeys ::
  "('e \<Rightarrow> bool) \<Rightarrow> 'e list \<Rightarrow> 'e FocusState \<Rightarrow> KeyboardEvent list \<Rightarrow> 'e FocusState" where
  "pressKeys canFocus pageElements s es =
     foldl (\<lambda>s e. pressKey canFocus pageElements e s) s es"

definition Tab :: KeyboardEvent where
  "Tab = \<lparr>eventKey = ''Tab'', shiftKey = False\<rparr>"

definition ShiftTab :: KeyboardEvent where
  "ShiftTab = \<lparr>eventKey = ''Tab'', shiftKey = True\<rparr>"

text \<open>
  A page of five elements: the button 0 that opens the dialog, the dialog's buttons 1, 2
  and 3, of which 3 is disabled (a submit button waiting for input, say), and a link 4
  after the dialog.
\<close>

definition lastIsDisabled :: "nat \<Rightarrow> bool" where
  "lastIsDisabled el = (el \<noteq> 3)"

definition openerFocused :: "nat FocusState" where
  "openerFocused =
     \<lparr>activeElement = Some 0, keydownListener = None, previouslyFocusedElement = None\<rparr>"


text \<open>
  C6 asks that the tab order never leaves the open dialog. It does here: the dialog
  opens with the focus on button 1, Tab moves it to button 2, and from there Tab moves
  it to the link 4 outside the dialog. The listener compares the focused element with
  \<^verbatim>\<open>lastElement\<close>, the disabled button 3, which never has the focus, so it never
  prevents the default.
\<close>

theorem useFocusTrap_leaves_dialog:
  "snd (useFocusTrap_effect lastIsDisabled True True (Some [1, 2, 3]) openerFocused)
   \<and> activeElement
       (fst (useFocusTrap_effect lastIsDisabled True True (Some [1, 2, 3]) openerFocused)) = Some 1
   \<and> activeElement
       (pressKeys lastIsDisabled [0, 1, 2, 3, 4]
          (fst (useFocusTrap_effect lastIsDisabled True True (Some [1, 2, 3]) openerFocused))
          [Tab]) = Some 2
   \<and> activeElement
       (pressKeys lastIsDisabled [0, 1, 2, 3, 4]
          (fst (useFocusTrap_effect lastIsDisabled True True (Some [1, 2, 3]) openerFocused))
          [Tab, Tab]) = Some 4
   \<and> 4 \<notin> set [1, 2, 3 :: nat]"
  by (simp add: pressKeys_def pressKey_def handleKeyDown_def useFocusTrap_effect_def
      sequentialNavigation_def tabOrder_def focus_def Tab_def lastIsDisabled_def openerFocused_def
      Let_def)

theorem useFocusTrap_leaves_dialog_witness:
  "activeElement
     (pressKeys lastIsDisabled [0, 1, 2, 3, 4]
        (fst (useFocusTrap_effect lastIsDisabled True True (Some [1, 2, 3]) openerFocused))
        [Tab, Tab]) \<notin> Some ` set [1, 2, 3]"
  using useFocusTrap_leaves_dialog by simp

lemma nextInOrder_Cons:
  "ys \<noteq> [] \<Longrightarrow> nextInOrder (p # ys) a = (if p = a then Some (hd ys) else nextInOrder ys a)"
  by (cases ys) simp_all

lemma nextInOrder_prefix:
  "a \<in> set fs \<Longrightarrow> a \<noteq> last fs \<Longrightarrow> \<exists>b \<in> set fs. nextInOrder (fs @ post) a = Some b"
proof (induction fs)
  case Nil
  then show ?case by simp
next
  case (Cons x fs)
  show ?case
  proof (cases fs)
    case Nil
    with Cons.prems show ?thesis by simp
  next
    case (Cons y fs')
    show ?thesis
    proof (cases "x = a")
      case True
      then show ?thesis using Cons by simp
    next
      case False
      with Cons.prems Cons have "a \<in> set fs" "a \<noteq> last fs" by auto
      from Cons.IH [OF this] obtain b where "b \<in> set fs" "nextInOrder (fs @ post) a = Some b"
        by blast
      with False Cons show ?thesis by auto
    qed
  qed
qed

lemma nextInOrder_middle:
  "distinct (pre @ fs @ post) \<Longrightarrow> a \<in> set fs \<Longrightarrow> a \<noteq> last fs
     \<Longrightarrow> \<exists>b \<in> set fs. nextInOrder (pre @ fs @ post) a = Some b"
proof (induction pre)
  case Nil
  then show ?case using nextInOrder_prefix [of a fs post] by simp
next
  case (Cons p pre)
  from Cons.prems have ne: "pre @ fs @ post \<noteq> []" and pa: "p \<noteq> a" by auto
  from Cons.prems have "distinct (pre @ fs @ post)" by simp
  from Cons.IH [OF this Cons.prems(2,3)] obtain b
    where "b \<in> set fs" "nextInOrder (pre @ fs @ post) a = Some b" by blast
  then show ?case using nextInOrder_Cons [OF ne, of p a] pa by auto
qed

lemma tabOrder_all_focusable:
  assumes "\<forall>x \<in> set fs. canFocus x"
  shows "tabOrder canFocus (pre @ fs @ post) = filter canFocus pre @ fs @ filter canFocus post"
  using assms by (simp add: tabOrder_def filter_id_conv)

lemma pressKey_stays:
  assumes d: "distinct (pre @ fs @ post)" and ne: "fs \<noteq> []"
    and cf: "\<forall>x \<in> set fs. canFocus x"
    and l: "keydownListener s = Some (hd fs, last fs)"
    and a: "activeElement s = Some a" "a \<in> set fs"
  shows "keydownListener (pressKey canFocus (pre @ fs @ post) e s) = Some (hd fs, last fs)
    \<and> previouslyFocusedElement (pressKey canFocus (pre @ fs @ post) e s) =
        previouslyFocusedElement s
    \<and> (\<exists>b \<in> set fs. activeElement (pressKey canFocus (pre @ fs @ post) e s) = Some b)"
proof (cases "eventKey e = ''Tab''")
  case False
  with l a show ?thesis by (simp add: pressKey_def handleKeyDown_def Let_def)
next
  case tab: True
  let ?pre = "filter canFocus pre" and ?post = "filter canFocus post"
  have t: "tabOrder canFocus (pre @ fs @ post) = ?pre @ fs @ ?post"
    using cf by (rule tabOrder_all_focusable)
  have d1: "distinct (?pre @ fs @ ?post)" using d by auto
  have hl: "canFocus (hd fs)" "canFocus (last fs)" using cf ne by simp_all
  show ?thesis
  proof (cases "shiftKey e")
    case False
    show ?thesis
    proof (cases "a = last fs")
      case True
      with tab False l a ne hl show ?thesis
        by (simp add: pressKey_def handleKeyDown_def focus_def Let_def)
    next
      case notlast: False
      from nextInOrder_middle [OF d1 a(2) notlast] obtain b
        where "b \<in> set fs" "nextInOrder (?pre @ fs @ ?post) a = Some b" by blast
      with tab False l a notlast show ?thesis
        by (simp add: pressKey_def handleKeyDown_def sequentialNavigation_def t Let_def)
    qed
  next
    case True
    show ?thesis
    proof (cases "a = hd fs")
      case first: True
      with tab True l a ne hl show ?thesis
        by (simp add: pressKey_def handleKeyDown_def focus_def Let_def)
    next
      case notfirst: False
      have d': "distinct (rev ?post @ rev fs @ rev ?pre)" using d1 by auto
      have a': "a \<in> set (rev fs)" using a(2) by simp
      have nl: "a \<noteq> last (rev fs)" using notfirst ne by (simp add: last_rev)
      from nextInOrder_middle [OF d' a' nl] obtain b
        where "b \<in> set fs" "nextInOrder (rev ?post @ rev fs @ rev ?pre) a = Some b" by auto
      with tab True l a notfirst show ?thesis
        by (simp add: pressKey_def handleKeyDown_def sequentialNavigation_def t Let_def)
    qed
  qed
qed

lemma pressKeys_stay:
  assumes d: "distinct (pre @ fs @ post)" and ne: "fs \<noteq> []"
    and cf: "\<forall>x \<in> set fs. canFocus x"
  shows "keydownListener s = Some (hd fs, last fs) \<Longrightarrow> activeElement s = Some a \<Longrightarrow> a \<in> set fs
    \<Longrightarrow> keydownListener (pressKeys canFocus (pre @ fs @ post) s es) = Some (hd fs, last fs)
      \<and> previouslyFocusedElement (pressKeys canFocus (pre @ fs @ post) s es) =
          previouslyFocusedElement s
      \<and> (\<exists>b \<in> set fs. activeElement (pressKeys canFocus (pre @ fs @ post) s es) = Some b)"
proof (induction es arbitrary: s a)
  case Nil
  then show ?case by (simp add: pressKeys_def)
next
  case (Cons e es)
  from pressKey_stays [OF d ne cf Cons.prems, of e] obtain b where
    s': "keydownListener (pressKey canFocus (pre @ fs @ post) e s) = Some (hd fs, last fs)"
      "previouslyFocusedElement (pressKey canFocus (pre @ fs @ post) e s) =
        previouslyFocusedElement s"
      "activeElement (pressKey canFocus (pre @ fs @ post) e s) = Some b" "b \<in> set fs"
    by blast
  from Cons.IH [OF s'(1) s'(3) s'(4)] s'(2) show ?case by (simp add: pressKeys_def)
qed

text \<open>
  Where the trap holds: every element the selector finds can take the focus, and so can
  the element focused when the dialog opens.
\<close>

lemma useFocusTrap_holds_when_all_focusable:
  assumes "pageElements = pre @ focusableElements @ post" and "distinct pageElements"
    and "focusableElements \<noteq> []" and "\<forall>el \<in> set focusableElements. canFocus el"
    and "activeElement s0 = Some opener" and "canFocus opener"
  shows "\<exists>el \<in> set focusableElements.
      activeElement
        (pressKeys canFocus pageElements
           (fst (useFocusTrap_effect canFocus True True (Some focusableElements) s0)) es)
      = Some el"
    and "activeElement
        (useFocusTrap_cleanup canFocus
          (pressKeys canFocus pageElements
             (fst (useFocusTrap_effect canFocus True True (Some focusableElements) s0)) es))
      = Some opener"
proof -
  let ?fs = focusableElements
  define s1 where "s1 = fst (useFocusTrap_effect canFocus True True (Some ?fs) s0)"
  define s where "s = pressKeys canFocus pageElements s1 es"
  obtain f rest where fs: "?fs = f # rest" using assms(3) by (cases ?fs) auto
  have cf: "canFocus f" using assms(4) fs by simp
  have l1: "keydownListener s1 = Some (hd ?fs, last ?fs)"
    and a1: "activeElement s1 = Some (hd ?fs)"
    and p1: "previouslyFocusedElement s1 = Some opener"
    using assms(5) cf by (simp_all add: s1_def useFocusTrap_effect_def fs focus_def Let_def)
  have h: "hd ?fs \<in> set ?fs" using assms(3) by simp
  have d: "distinct (pre @ ?fs @ post)" using assms(1,2) by simp
  from pressKeys_stay [OF d assms(3,4) l1 a1 h, of es] obtain b where
    ps: "previouslyFocusedElement s = Some opener"
    and as: "activeElement s = Some b" "b \<in> set ?fs"
    unfolding s_def assms(1) p1 by blast
  show "\<exists>el \<in> set ?fs. activeElement (pressKeys canFocus pageElements
      (fst (useFocusTrap_effect canFocus True True (Some ?fs) s0)) es) = Some el"
    using as unfolding s_def s1_def by blast
  show "activeElement (useFocusTrap_cleanup canFocus (pressKeys canFocus pageElements
      (fst (useFocusTrap_effect canFocus True True (Some ?fs) s0)) es)) = Some opener"
    using ps assms(6) unfolding s_def [symmetric] s1_def [symmetric]
    by (simp add: useFocusTrap_cleanup_def focus_def Let_def)
qed


section \<open>DateRangePicker: the calendar of a Date\<close>

text \<open>
  \<^verbatim>\<open>getDaysInMonth\<close> works through the methods of \<^verbatim>\<open>Date\<close> and through date-fns. They
  are modelled after the ECMAScript specification of time values: a day has \<open>msPerDay\<close>
  milliseconds, \<open>Day t\<close> is the number of the day a time value falls on (day 0 is
  1 January 1970), and year, month (0 to 11) and day of the month are read off the day
  number in the proleptic Gregorian calendar. Local time is taken to be UTC: no offset
  and no daylight saving. Time values are unbounded integers: the limit of ECMAScript's
  time values (100 million days either side of the epoch), past which a \<^verbatim>\<open>Date\<close>
  denotes no date, is not modelled.
\<close>

definition msPerDay :: int where
  "msPerDay = 86400000"

definition Day :: "Date \<Rightarrow> int" where
  "Day t = t div msPerDay"

definition TimeWithinDay :: "Date \<Rightarrow> int" where
  "TimeWithinDay t = t mod msPerDay"

definition InLeapYear :: "int \<Rightarrow> bool" where
  "InLeapYear y = (y mod 4 = 0 \<and> (y mod 100 \<noteq> 0 \<or> y mod 400 = 0))"

definition DaysInYear :: "int \<Rightarrow> int" where
  "DaysInYear y = (if InLeapYear y then 366 else 365)"

definition DayFromYear :: "int \<Rightarrow> int" where
  "DayFromYear y =
     365 * (y - 1970) + (y - 1969) div 4 - (y - 1901) div 100 + (y - 1601) div 400"

text \<open>
  ECMAScript specifies the year of a time value as the largest year whose first day is
  not after it. The definition computes that year from an estimate that is off by at
  most one; \<open>YearFromDay_spec\<close> and \<open>YearFromDay_unique\<close> below show that it is the
  specified one.
\<close>

definition YearFromDay :: "int \<Rightarrow> int" where
  "YearFromDay d =
     (let y = 1970 + (400 * d) div 146097
      in if DayFromYear (y + 1) \<le> d then y + 1
         else if d < DayFromYear y then y - 1
         else y)"

definition DayWithinYear :: "int \<Rightarrow> int" where
  "DayWithinYear d = d - DayFromYear (YearFromDay d)"

text \<open>
  The month table of the specification: \<open>L\<close> is 1 in a leap year and 0 otherwise, and
  \<open>daysBeforeMonth L m\<close> is the day within the year on which month \<open>m\<close> starts
  (for \<open>m = 12\<close>: the length of the year).
\<close>

definition leapDay :: "int \<Rightarrow> int" where
  "leapDay y = (if InLeapYear y then 1 else 0)"

definition monthOfDayWithinYear :: "int \<Rightarrow> int \<Rightarrow> int" where
  "monthOfDayWithinYear L dwy =
     (if dwy < 31 then 0
      else if dwy < 59 + L then 1
      else if dwy < 90 + L then 2
      else if dwy < 120 + L then 3
      else if dwy < 151 + L then 4
      else if dwy < 181 + L then 5
      else if dwy < 212 + L then 6
      else if dwy < 243 + L then 7
      else if dwy < 273 + L then 8
      else if dwy < 304 + L then 9
      else if dwy < 334 + L then 10
      else 11)"

definition daysBeforeMonth :: "int \<Rightarrow> int \<Rightarrow> int" where
  "daysBeforeMonth L m =
     (if m = 0 then 0
      else if m = 1 then 31
      else if m = 2 then 59 + L
      else if m = 3 then 90 + L
      else if m = 4 then 120 + L
      else if m = 5 then 151 + L
      else if m = 6 then 181 + L
      else if m = 7 then 212 + L
      else if m = 8 then 243 + L
      else if m = 9 then 273 + L
      else if m = 10 then 304 + L
      else if m = 11 then 334 + L
      else 365 + L)"

definition MonthFromDay :: "int \<Rightarrow> int" where
  "MonthFromDay d = monthOfDayWithinYear (leapDay (YearFromDay d)) (DayWithinYear d)"

definition DateFromDay :: "int \<Rightarrow> int" where
  "DateFromDay d = DayWithinYear d + 1 - daysBeforeMonth (leapDay (YearFromDay d)) (MonthFromDay d)"

text \<open>
  \<open>MakeDay year month dt\<close> is the day number of day \<open>dt\<close> of the given month, where
  months beyond 0 to 11 carry into the year and \<open>dt\<close> may lie outside the month: day 0
  is the last day of the month before. (\<open>MakeDay_roundtrip\<close> below: for a day inside the
  month, this is the day whose year, month and day of the month are the given ones.)
\<close>

definition MakeDay :: "int \<Rightarrow> int \<Rightarrow> int \<Rightarrow> int" where
  "MakeDay year month dt =
     (let ym = year + month div 12; mn = month mod 12
      in DayFromYear ym + daysBeforeMonth (leapDay ym) mn + dt - 1)"

definition WeekDay :: "int \<Rightarrow> int" where
  "WeekDay d = (d + 4) mod 7"

definition MakeTime :: "int \<Rightarrow> int \<Rightarrow> int \<Rightarrow> int \<Rightarrow> int" where
  "MakeTime h m s ms = h * 3600000 + m * 60000 + s * 1000 + ms"

definition MakeDate :: "int \<Rightarrow> int \<Rightarrow> Date" where
  "MakeDate day time = day * msPerDay + time"

text \<open>
  The methods of \<^verbatim>\<open>Date\<close>, the object's time value as first argument; a setter returns the
  new time value. \<^verbatim>\<open>getDay\<close> is the day of the week, 0 for Sunday.
\<close>

definition getFullYear :: "Date \<Rightarrow> int" where
  "getFullYear t = YearFromDay (Day t)"

definition getMonth :: "Date \<Rightarrow> int" where
  "getMonth t = MonthFromDay (Day t)"

definition getDate :: "Date \<Rightarrow> int" where
  "getDate t = DateFromDay (Day t)"

definition getDay :: "Date \<Rightarrow> int" where
  "getDay t = WeekDay (Day t)"

definition setDate :: "Date \<Rightarrow> int \<Rightarrow> Date" where
  "setDate t dt = MakeDate (MakeDay (getFullYear t) (getMonth t) dt) (TimeWithinDay t)"

definition setFullYear :: "Date \<Rightarrow> int \<Rightarrow> int \<Rightarrow> int \<Rightarrow> Date" where
  "setFullYear t y m dt = MakeDate (MakeDay y m dt) (TimeWithinDay t)"

definition setHours :: "Date \<Rightarrow> int \<Rightarrow> int \<Rightarrow> int \<Rightarrow> int \<Rightarrow> Date" where
  "setHours t h m s ms = MakeDate (Day t) (MakeTime h m s ms)"

text \<open>
  date-fns: \<^verbatim>\<open>startOfMonth\<close> sets the day of the month to 1 and the time to 0:00:00.000,
  \<^verbatim>\<open>endOfMonth\<close> sets the date to day 0 of the next month and the time to 23:59:59.999.
\<close>

definition startOfMonth :: "Date \<Rightarrow> Date" where
  "startOfMonth d = setHours (setDate d 1) 0 0 0 0"

definition endOfMonth :: "Date \<Rightarrow> Date" where
  "endOfMonth d =
     (let month = getMonth d
      in setHours (setFullYear d (getFullYear d) (month + 1) 0) 23 59 59 999)"

lemma div_bounds:
  fixes a n :: int
  assumes "0 < n"
  shows "n * (a div n) \<le> a" and "a < n * (a div n) + n"
proof -
  have eq: "n * (a div n) + a mod n = a" by (rule mult_div_mod_eq)
  have "0 \<le> a mod n" using assms by (rule pos_mod_sign)
  moreover have "a mod n < n" using assms by (rule pos_mod_bound)
  ultimately show "n * (a div n) \<le> a" and "a < n * (a div n) + n" using eq by linarith+
qed

lemma div_step:
  fixes x n :: int
  assumes "0 < n"
  shows "(x + 1) div n = (if n dvd (x + 1) then x div n + 1 else x div n)"
proof -
  have eq: "n * (x div n) + x mod n = x" by (rule mult_div_mod_eq)
  have r0: "0 \<le> x mod n" using assms by (rule pos_mod_sign)
  have r1: "x mod n < n" using assms by (rule pos_mod_bound)
  show ?thesis
  proof (cases "x mod n = n - 1")
    case True
    have "n * (x div n + 1) = n * (x div n) + n" by (simp add: algebra_simps)
    with True eq have "x + 1 = n * (x div n + 1)" by linarith
    then have "n dvd (x + 1)" and "(x + 1) div n = x div n + 1" using assms by simp_all
    then show ?thesis by simp
  next
    case False
    then have r2: "x mod n + 1 < n" using r1 by simp
    have "x + 1 = n * (x div n) + (x mod n + 1)" using eq by simp
    then have "(x + 1) div n = x div n" and "(x + 1) mod n = x mod n + 1"
      using r0 r2 int_div_pos_eq [of "x + 1" n "x div n" "x mod n + 1"]
        int_mod_pos_eq [of "x + 1" n "x div n" "x mod n + 1"] by simp_all
    then have "(x + 1) div n = x div n" and "\<not> n dvd (x + 1)"
      using r0 by (simp_all add: dvd_eq_mod_eq_0)
    then show ?thesis by simp
  qed
qed

lemma InLeapYear_dvd: "InLeapYear y \<longleftrightarrow> 4 dvd y \<and> (\<not> 100 dvd y \<or> 400 dvd y)"
  by (simp add: InLeapYear_def dvd_eq_mod_eq_0)

lemma DayFromYear_Suc: "DayFromYear (y + 1) = DayFromYear y + DaysInYear y"
proof -
  have e4: "y - 1969 + 1 = y + (- 492) * 4" by simp
  have e100: "y - 1901 + 1 = y + (- 19) * 100" by simp
  have e400: "y - 1601 + 1 = y + (- 4) * 400" by simp
  have d4: "(4::int) dvd (y - 1969 + 1) \<longleftrightarrow> 4 dvd y"
    unfolding e4 by (rule dvd_add_times_triv_right_iff)
  have d100: "(100::int) dvd (y - 1901 + 1) \<longleftrightarrow> 100 dvd y"
    unfolding e100 by (rule dvd_add_times_triv_right_iff)
  have d400: "(400::int) dvd (y - 1601 + 1) \<longleftrightarrow> 400 dvd y"
    unfolding e400 by (rule dvd_add_times_triv_right_iff)
  have a: "(y + 1 - 1969) div 4 = (if 4 dvd y then (y - 1969) div 4 + 1 else (y - 1969) div 4)"
    using div_step [of 4 "y - 1969"] d4 by (simp add: algebra_simps)
  have b: "(y + 1 - 1901) div 100 =
      (if 100 dvd y then (y - 1901) div 100 + 1 else (y - 1901) div 100)"
    using div_step [of 100 "y - 1901"] d100 by (simp add: algebra_simps)
  have c: "(y + 1 - 1601) div 400 =
      (if 400 dvd y then (y - 1601) div 400 + 1 else (y - 1601) div 400)"
    using div_step [of 400 "y - 1601"] d400 by (simp add: algebra_simps)
  have i1: "400 dvd y \<Longrightarrow> 100 dvd y"
    using dvd_trans [of 100 400 y] by simp
  have i2: "100 dvd y \<Longrightarrow> 4 dvd y"
    using dvd_trans [of 4 100 y] by simp
  show ?thesis
    unfolding DayFromYear_def DaysInYear_def InLeapYear_dvd a b c
    using i1 i2 by auto
qed

lemma DaysInYear_pos: "365 \<le> DaysInYear y" "DaysInYear y \<le> 366"
  by (simp_all add: DaysInYear_def)

lemma DayFromYear_less: "DayFromYear y < DayFromYear (y + 1)"
  using DaysInYear_pos(1) [of y] by (simp add: DayFromYear_Suc)

lemma DayFromYear_mono_nat: "DayFromYear y \<le> DayFromYear (y + int n)"
proof (induction n)
  case 0
  show ?case by simp
next
  case (Suc n)
  have "DayFromYear (y + int n) < DayFromYear (y + int n + 1)" by (rule DayFromYear_less)
  moreover have "y + int (Suc n) = y + int n + 1" by simp
  ultimately show ?case using Suc by (simp only:)
qed

lemma DayFromYear_mono: "y \<le> z \<Longrightarrow> DayFromYear y \<le> DayFromYear z"
  using DayFromYear_mono_nat [of y "nat (z - y)"] by simp

lemma YearFromDay_estimate:
  fixes d :: int
  defines "y \<equiv> 1970 + (400 * d) div 146097"
  shows "DayFromYear (y - 1) \<le> d" and "d < DayFromYear (y + 2)"
proof -
  define k where "k = (400 * d) div 146097"
  have y: "y = 1970 + k" by (simp add: y_def k_def)
  have k1: "146097 * k \<le> 400 * d" and k2: "400 * d < 146097 * k + 146097"
    unfolding k_def using div_bounds [of 146097 "400 * d"] by simp_all
  define a where "a = k div 4"
  define b where "b = (k + 68) div 100"
  define c where "c = (k + 368) div 400"
  have lo: "DayFromYear (y - 1) = 365 * k - 365 + a - b + c"
    by (simp add: DayFromYear_def y a_def b_def c_def add.commute)
  have a1: "4 * a \<le> k" unfolding a_def using div_bounds [of 4 k] by simp
  have b1: "k + 68 < 100 * b + 100" unfolding b_def using div_bounds [of 100 "k + 68"] by simp
  have c1: "400 * c \<le> k + 368" unfolding c_def using div_bounds [of 400 "k + 368"] by simp
  show "DayFromYear (y - 1) \<le> d"
    unfolding lo using k1 a1 b1 c1 by linarith
  define a' where "a' = (k + 3) div 4"
  define b' where "b' = (k + 71) div 100"
  define c' where "c' = (k + 371) div 400"
  have hi: "DayFromYear (y + 2) = 365 * k + 730 + a' - b' + c'"
    by (simp add: DayFromYear_def y a'_def b'_def c'_def add.commute)
  have a2: "k + 3 < 4 * a' + 4" unfolding a'_def using div_bounds [of 4 "k + 3"] by simp
  have b2: "100 * b' \<le> k + 71" unfolding b'_def using div_bounds [of 100 "k + 71"] by simp
  have c2: "k + 371 < 400 * c' + 400"
    unfolding c'_def using div_bounds [of 400 "k + 371"] by simp
  show "d < DayFromYear (y + 2)"
    unfolding hi using k2 a2 b2 c2 by linarith
qed

lemma YearFromDay_spec:
  "DayFromYear (YearFromDay d) \<le> d" "d < DayFromYear (YearFromDay d + 1)"
proof -
  define y where "y = 1970 + (400 * d) div 146097"
  have lo: "DayFromYear (y - 1) \<le> d" and hi: "d < DayFromYear (y + 2)"
    using YearFromDay_estimate [of d] by (simp_all add: y_def)
  have s: "y + 1 + 1 = y + 2" "y - 1 + 1 = y" by simp_all
  have yd: "YearFromDay d =
      (if DayFromYear (y + 1) \<le> d then y + 1 else if d < DayFromYear y then y - 1 else y)"
    by (simp add: YearFromDay_def y_def Let_def)
  show "DayFromYear (YearFromDay d) \<le> d" and "d < DayFromYear (YearFromDay d + 1)"
    unfolding yd using lo hi by (auto simp: s)
qed

lemma YearFromDay_unique:
  assumes "DayFromYear y \<le> d" and "d < DayFromYear (y + 1)"
  shows "YearFromDay d = y"
proof (rule ccontr)
  assume ne: "YearFromDay d \<noteq> y"
  show False
  proof (cases "YearFromDay d < y")
    case True
    then have "DayFromYear (YearFromDay d + 1) \<le> DayFromYear y"
      by (intro DayFromYear_mono) simp
    with YearFromDay_spec(2) [of d] assms(1) show False by simp
  next
    case False
    with ne have "DayFromYear (y + 1) \<le> DayFromYear (YearFromDay d)"
      by (intro DayFromYear_mono) simp
    with YearFromDay_spec(1) [of d] assms(2) show False by simp
  qed
qed

lemma leapDay_cases: "leapDay y = 0 \<or> leapDay y = 1"
  by (simp add: leapDay_def)

lemma DaysInYear_leapDay: "DaysInYear y = 365 + leapDay y"
  by (simp add: DaysInYear_def leapDay_def)

lemma month_range: "0 \<le> monthOfDayWithinYear L dwy" "monthOfDayWithinYear L dwy \<le> 11"
  by (simp_all add: monthOfDayWithinYear_def)

lemma month_bounds:
  assumes "0 \<le> dwy" and "dwy < 365 + L"
  shows "daysBeforeMonth L (monthOfDayWithinYear L dwy) \<le> dwy"
    and "dwy < daysBeforeMonth L (monthOfDayWithinYear L dwy + 1)"
  using assms by (simp_all add: monthOfDayWithinYear_def daysBeforeMonth_def)

lemma month_cases:
  fixes m :: int
  assumes "0 \<le> m" "m \<le> 11"
  shows "m = 0 \<or> m = 1 \<or> m = 2 \<or> m = 3 \<or> m = 4 \<or> m = 5 \<or> m = 6 \<or> m = 7 \<or> m = 8
    \<or> m = 9 \<or> m = 10 \<or> m = 11"
  using assms by arith

lemma month_unique:
  assumes "0 \<le> m" "m \<le> 11" and "L = 0 \<or> L = 1"
    and "daysBeforeMonth L m \<le> dwy" and "dwy < daysBeforeMonth L (m + 1)"
  shows "monthOfDayWithinYear L dwy = m"
  using month_cases [OF assms(1,2)] assms(3,4,5)
  by (elim disjE) (simp_all add: monthOfDayWithinYear_def daysBeforeMonth_def)

lemma daysBeforeMonth_bounds:
  assumes "0 \<le> m" "m \<le> 11" and "L = 0 \<or> L = 1"
  shows "0 \<le> daysBeforeMonth L m" and "daysBeforeMonth L (m + 1) \<le> 365 + L"
    and "daysBeforeMonth L m + 28 \<le> daysBeforeMonth L (m + 1)"
    and "daysBeforeMonth L (m + 1) \<le> daysBeforeMonth L m + 31"
  using month_cases [OF assms(1,2)] assms(3)
  by (auto simp: daysBeforeMonth_def)

lemma DayWithinYear_bounds: "0 \<le> DayWithinYear d" "DayWithinYear d < 365 + leapDay (YearFromDay d)"
  using YearFromDay_spec [of d]
  by (simp_all add: DayWithinYear_def DayFromYear_Suc DaysInYear_leapDay)

lemma MonthFromDay_range: "0 \<le> MonthFromDay d" "MonthFromDay d \<le> 11"
  by (simp_all add: MonthFromDay_def month_range)

lemma MakeDay_in_year:
  assumes "0 \<le> m" "m \<le> 11"
  shows "MakeDay y m n = DayFromYear y + daysBeforeMonth (leapDay y) m + n - 1"
proof -
  have "m div 12 = 0" "m mod 12 = m" using assms by simp_all
  then show ?thesis by (simp add: MakeDay_def)
qed

lemma MakeDay_next_month:
  assumes "0 \<le> m" "m \<le> 11"
  shows "MakeDay y (m + 1) n = DayFromYear y + daysBeforeMonth (leapDay y) (m + 1) + n - 1"
proof (cases "m = 11")
  case True
  have "DayFromYear (y + 1) = DayFromYear y + 365 + leapDay y"
    by (simp add: DayFromYear_Suc DaysInYear_leapDay)
  then show ?thesis using True by (simp add: MakeDay_def daysBeforeMonth_def)
next
  case False
  with assms have "0 \<le> m + 1" "m + 1 \<le> 11" by simp_all
  then show ?thesis by (rule MakeDay_in_year)
qed

text \<open>Setting the day of the month moves the day number by the difference.\<close>

lemma MakeDay_DateFromDay:
  "MakeDay (YearFromDay d) (MonthFromDay d) (DateFromDay d + k) = d + k"
  using MakeDay_in_year [OF MonthFromDay_range, where d1 = d and y = "YearFromDay d"
      and n = "DateFromDay d + k"]
  by (simp add: DateFromDay_def DayWithinYear_def)

lemma MakeDay_roundtrip:
  assumes m: "0 \<le> m" "m \<le> 11"
    and n: "1 \<le> n" "n \<le> daysBeforeMonth (leapDay y) (m + 1) - daysBeforeMonth (leapDay y) m"
  shows "YearFromDay (MakeDay y m n) = y" and "MonthFromDay (MakeDay y m n) = m"
    and "DateFromDay (MakeDay y m n) = n"
proof -
  let ?L = "leapDay y"
  let ?D = "MakeDay y m n"
  have D: "?D = DayFromYear y + daysBeforeMonth ?L m + n - 1"
    using m by (rule MakeDay_in_year)
  have b: "0 \<le> daysBeforeMonth ?L m" "daysBeforeMonth ?L (m + 1) \<le> 365 + ?L"
    using daysBeforeMonth_bounds [OF m leapDay_cases [of y]] by simp_all
  have "DayFromYear y \<le> ?D" using D b(1) n(1) by simp
  moreover have "?D < DayFromYear (y + 1)"
    using D b(2) n(2) by (simp add: DayFromYear_Suc DaysInYear_leapDay)
  ultimately show y: "YearFromDay ?D = y" by (rule YearFromDay_unique)
  have "DayWithinYear ?D = ?D - DayFromYear y"
    by (simp only: DayWithinYear_def y)
  then have w: "DayWithinYear ?D = daysBeforeMonth ?L m + n - 1"
    by (simp only: D)
  have "monthOfDayWithinYear ?L (DayWithinYear ?D) = m"
    using m leapDay_cases [of y] by (rule month_unique) (use w n in simp_all)
  then show mo: "MonthFromDay ?D = m" by (simp add: MonthFromDay_def y)
  show "DateFromDay ?D = n" by (simp add: DateFromDay_def y mo w)
qed

lemma DateFromDay_bounds:
  "1 \<le> DateFromDay d"
  "DateFromDay d \<le> daysBeforeMonth (leapDay (YearFromDay d)) (MonthFromDay d + 1)
     - daysBeforeMonth (leapDay (YearFromDay d)) (MonthFromDay d)"
  using month_bounds [OF DayWithinYear_bounds, of d]
  by (simp_all add: DateFromDay_def MonthFromDay_def)

lemma TimeWithinDay_bounds: "0 \<le> TimeWithinDay t" "TimeWithinDay t < msPerDay"
  by (simp_all add: TimeWithinDay_def msPerDay_def)

lemma Day_MakeDate:
  assumes "0 \<le> time" "time < msPerDay"
  shows "Day (MakeDate day time) = day" and "TimeWithinDay (MakeDate day time) = time"
proof -
  have e: "MakeDate day time = msPerDay * day + time" by (simp add: MakeDate_def)
  have p: "0 < msPerDay" by (simp add: msPerDay_def)
  show "Day (MakeDate day time) = day"
    unfolding Day_def e using assms by (intro int_div_pos_eq [of _ _ _ time]) simp_all
  show "TimeWithinDay (MakeDate day time) = time"
    unfolding TimeWithinDay_def e using assms by (intro int_mod_pos_eq [of _ _ day]) simp_all
qed

lemma Day_setDate: "Day (setDate t (getDate t + k)) = Day t + k"
  by (simp add: setDate_def getDate_def getFullYear_def getMonth_def MakeDay_DateFromDay
      Day_MakeDate TimeWithinDay_bounds)

lemma setHours_midnight: "setHours t 0 0 0 0 = Day t * msPerDay"
  by (simp add: setHours_def MakeDate_def MakeTime_def)

lemma Day_midnight: "Day (a * msPerDay) = a"
  by (simp add: Day_def msPerDay_def)

lemma midnight_le_iff: "a * msPerDay \<le> t \<longleftrightarrow> a \<le> Day t"
proof -
  have "86400000 * (t div 86400000) \<le> t" "t < 86400000 * (t div 86400000) + 86400000"
    using div_bounds [of 86400000 t] by simp_all
  then show ?thesis unfolding Day_def msPerDay_def by linarith
qed

lemma eachDayLoop_step: "setHours (setDate d (getDate d + 1)) 0 0 0 0 = (Day d + 1) * msPerDay"
  by (simp only: setHours_midnight Day_setDate)

lemma WeekDay_range: "0 \<le> WeekDay d" "WeekDay d < 7"
  by (simp_all add: WeekDay_def)

lemma WeekDay_of: "d + 4 = r + 7 * q \<Longrightarrow> 0 \<le> r \<Longrightarrow> r < 7 \<Longrightarrow> WeekDay d = r"
proof -
  assume a: "d + 4 = r + 7 * q" and r: "0 \<le> r" "r < 7"
  have "(d + 4) mod 7 = r"
    using r by (intro int_mod_pos_eq [of _ _ q]) (simp_all add: a)
  then show ?thesis by (simp only: WeekDay_def)
qed


section \<open>DateRangePicker: the month grid\<close>

text \<open>
  date-fns' \<^verbatim>\<open>eachDayOfInterval\<close>: from the start of the day of \<open>start\<close>, the loop
  \<^verbatim>\<open>while (+date <= endTime) { dates.push(date); date.setDate(date.getDate() + 1);
  date.setHours(0, 0, 0, 0) }\<close>. An interval whose start is after its end gives \<open>None\<close>:
  the versions of date-fns differ there (a \<^verbatim>\<open>RangeError\<close>, or the days in reverse), and
  \<^verbatim>\<open>getDaysInMonth\<close> never passes one.
\<close>

function eachDayLoop :: "Date \<Rightarrow> Date \<Rightarrow> Date list" where
  "eachDayLoop d endTime =
     (if d \<le> endTime
      then d # eachDayLoop (setHours (setDate d (getDate d + 1)) 0 0 0 0) endTime
      else [])"
  by pat_completeness auto

termination eachDayLoop
proof (relation "measure (\<lambda>(d, endTime). nat (Day endTime - Day d + 1))")
  show "wf (measure (\<lambda>(d, endTime). nat (Day endTime - Day d + 1)))" by simp
next
  fix d endTime :: Date
  assume "d \<le> endTime"
  then have "Day d \<le> Day endTime"
    unfolding Day_def msPerDay_def by (intro zdiv_mono1) simp_all
  then show "((setHours (setDate d (getDate d + 1)) 0 0 0 0, endTime), (d, endTime))
      \<in> measure (\<lambda>(d, endTime). nat (Day endTime - Day d + 1))"
    by (simp add: eachDayLoop_step Day_midnight)
qed

declare eachDayLoop.simps [simp del]

definition eachDayOfInterval :: "Date \<Rightarrow> Date \<Rightarrow> Date list option" where
  "eachDayOfInterval start end_date =
     (if start > end_date then None
      else Some (eachDayLoop (setHours start 0 0 0 0) end_date))"

text \<open>
  The two loops of \<^verbatim>\<open>getDaysInMonth\<close>:
  \<^verbatim>\<open>for (let i = daysToPrepend; i > 0; i--)\<close> pushes \<^verbatim>\<open>prevMonthEnd\<close> with its date set to
  \<^verbatim>\<open>prevMonthEnd.getDate() - i + 1\<close>, and \<^verbatim>\<open>for (let i = 0; i < daysToAppend; i++)\<close>
  pushes \<^verbatim>\<open>nextMonthStart\<close> with its date set to \<^verbatim>\<open>nextMonthStart.getDate() + i\<close>; the last
  argument of \<open>appendLoop\<close> is the number of rounds left.
\<close>

fun prependLoop :: "Date \<Rightarrow> nat \<Rightarrow> Date list" where
  "prependLoop prevMonthEnd 0 = []"
| "prependLoop prevMonthEnd (Suc i) =
     setDate prevMonthEnd (getDate prevMonthEnd - int (Suc i) + 1) # prependLoop prevMonthEnd i"

fun appendLoop :: "Date \<Rightarrow> int \<Rightarrow> nat \<Rightarrow> Date list" where
  "appendLoop nextMonthStart i 0 = []"
| "appendLoop nextMonthStart i (Suc n) =
     setDate nextMonthStart (getDate nextMonthStart + i) # appendLoop nextMonthStart (i + 1) n"

text \<open>
  \<^verbatim>\<open>for (let i = 0; i < days.length; i += 7) weeks.push(days.slice(i, i + 7))\<close>
\<close>

function groupWeeks :: "'a list \<Rightarrow> 'a list list" where
  "groupWeeks days = (if days = [] then [] else take 7 days # groupWeeks (drop 7 days))"
  by pat_completeness auto

termination
  by (relation "measure length") auto

declare groupWeeks.simps [simp del]

definition getDaysInMonth :: "Date \<Rightarrow> bool \<Rightarrow> Date list list option" where
  "getDaysInMonth month showOutsideDays =
     (let start = startOfMonth month;
          end_date = endOfMonth month;
          firstDayOfWeek = getDay start;
          lastDayOfWeek = getDay end_date;
          daysToPrepend = firstDayOfWeek;
          daysToAppend = 6 - lastDayOfWeek
      in case eachDayOfInterval start end_date of
           None \<Rightarrow> None
         | Some daysInMonth \<Rightarrow>
             (let prepended =
                    (if showOutsideDays \<and> daysToPrepend > 0
                     then (let prevMonthEnd = setDate start 0
                           in prependLoop prevMonthEnd (nat daysToPrepend))
                     else []);
                  days = prepended @ daysInMonth;
                  days' =
                    (if showOutsideDays \<and> daysToAppend > 0
                     then (let nextMonthStart = setDate end_date (getDate end_date + 1)
                           in days @ appendLoop nextMonthStart 0 (nat daysToAppend))
                     else days)
              in Some (groupWeeks days')))"

text \<open>The day numbers of the month that \<open>month\<close> lies in.\<close>

definition sameMonth :: "Date \<Rightarrow> int \<Rightarrow> bool" where
  "sameMonth month d \<longleftrightarrow> YearFromDay d = getFullYear month \<and> MonthFromDay d = getMonth month"

lemma eachDayLoop_upto:
  "d = Day d * msPerDay \<Longrightarrow>
     eachDayLoop d endTime = map (\<lambda>x. x * msPerDay) [Day d .. Day endTime]"
proof (induction d endTime rule: eachDayLoop.induct)
  case (1 d endTime)
  let ?d' = "setHours (setDate d (getDate d + 1)) 0 0 0 0"
  have eq: "Day d * msPerDay = d" using "1.prems" by (rule sym)
  have d': "?d' = (Day d + 1) * msPerDay" by (rule eachDayLoop_step)
  have Dd': "Day ?d' = Day d + 1" by (simp only: d' Day_midnight)
  have iff: "d \<le> endTime \<longleftrightarrow> Day d \<le> Day endTime"
    using midnight_le_iff [of "Day d" endTime] by (simp only: eq)
  show ?case
  proof (cases "d \<le> endTime")
    case True
    then have le: "Day d \<le> Day endTime" using iff by blast
    have "?d' = Day ?d' * msPerDay" by (simp only: d' Day_midnight)
    from "1.IH" [OF True this]
    have ih: "eachDayLoop ?d' endTime = map (\<lambda>x. x * msPerDay) [Day d + 1 .. Day endTime]"
      by (simp only: Dd')
    have "eachDayLoop d endTime = d # eachDayLoop ?d' endTime"
      using True by (subst eachDayLoop.simps) (simp only: if_True)
    also have "\<dots> = Day d * msPerDay # map (\<lambda>x. x * msPerDay) [Day d + 1 .. Day endTime]"
      by (simp only: ih eq)
    also have "\<dots> = map (\<lambda>x. x * msPerDay) (Day d # [Day d + 1 .. Day endTime])"
      by (simp only: list.map)
    also have "Day d # [Day d + 1 .. Day endTime] = [Day d .. Day endTime]"
      using le by (rule upto_rec1 [symmetric])
    finally show ?thesis .
  next
    case False
    then have "\<not> Day d \<le> Day endTime" using iff by blast
    then have "[Day d .. Day endTime] = []" by simp
    moreover have "eachDayLoop d endTime = []"
      using False by (subst eachDayLoop.simps) (simp only: if_False)
    ultimately show ?thesis by simp
  qed
qed

lemma prependLoop_days:
  "map Day (prependLoop p n) = [Day p - int n + 1 .. Day p]"
proof (induction n)
  case 0
  show ?case by simp
next
  case (Suc n)
  have "Day (setDate p (getDate p - int (Suc n) + 1)) = Day p - int n"
    using Day_setDate [of p "- int n"] by (simp add: algebra_simps)
  then have "map Day (prependLoop p (Suc n)) = (Day p - int n) # [Day p - int n + 1 .. Day p]"
    using Suc by simp
  also have "\<dots> = [Day p - int n .. Day p]"
    by (simp add: upto_rec1 [of "Day p - int n" "Day p"])
  finally show ?case by (simp add: algebra_simps)
qed

lemma appendLoop_days:
  "map Day (appendLoop q i n) = [Day q + i .. Day q + i + int n - 1]"
proof (induction n arbitrary: i)
  case 0
  show ?case by simp
next
  case (Suc n)
  have h: "Day (setDate q (getDate q + i)) = Day q + i" by (rule Day_setDate)
  have e1: "Day q + (i + 1) = Day q + i + 1" by simp
  have e2: "Day q + i + 1 + int n - 1 = Day q + i + int (Suc n) - 1" by simp
  have le: "Day q + i \<le> Day q + i + int (Suc n) - 1" by simp
  have r: "[Day q + i .. Day q + i + int (Suc n) - 1] =
      (Day q + i) # [Day q + i + 1 .. Day q + i + int (Suc n) - 1]"
    using le by (rule upto_rec1)
  show ?case
    by (simp only: appendLoop.simps list.map h Suc [of "i + 1"] e1 e2 r)
qed

lemma groupWeeks_Nil: "groupWeeks [] = []"
  by (subst groupWeeks.simps) simp

lemma groupWeeks_Cons:
  "days \<noteq> [] \<Longrightarrow> groupWeeks days = take 7 days # groupWeeks (drop 7 days)"
  by (subst groupWeeks.simps) simp

lemma concat_groupWeeks: "concat (groupWeeks xs) = xs"
proof (induction xs rule: groupWeeks.induct)
  case (1 days)
  show ?case
  proof (cases "days = []")
    case True
    then show ?thesis by (simp add: groupWeeks_Nil)
  next
    case False
    with 1 [OF False] show ?thesis by (simp add: groupWeeks_Cons)
  qed
qed

lemma groupWeeks_lengths:
  "w \<in> set (groupWeeks xs) \<Longrightarrow> 0 < length w \<and> length w \<le> 7"
proof (induction xs rule: groupWeeks.induct)
  case (1 days)
  show ?case
  proof (cases "days = []")
    case True
    with "1.prems" show ?thesis by (simp add: groupWeeks_Nil)
  next
    case False
    with "1.prems" have "w = take 7 days \<or> w \<in> set (groupWeeks (drop 7 days))"
      by (simp add: groupWeeks_Cons)
    then show ?thesis
    proof
      assume "w = take 7 days"
      with False show ?thesis by simp
    next
      assume "w \<in> set (groupWeeks (drop 7 days))"
      then show ?thesis by (rule "1.IH" [OF False])
    qed
  qed
qed

lemma groupWeeks_full:
  "7 dvd length xs \<Longrightarrow> w \<in> set (groupWeeks xs) \<Longrightarrow> length w = 7"
proof (induction xs rule: groupWeeks.induct)
  case (1 days)
  show ?case
  proof (cases "days = []")
    case True
    with "1.prems" show ?thesis by (simp add: groupWeeks_Nil)
  next
    case False
    from "1.prems"(1) obtain k where k: "length days = 7 * k" by (auto simp: dvd_def)
    with False have kpos: "0 < k" by (cases k) auto
    then have len: "7 \<le> length days" using k by simp
    have "length (drop 7 days) = 7 * (k - 1)" using k kpos by simp
    then have dv: "7 dvd length (drop 7 days)" by simp
    from "1.prems"(2) False have "w = take 7 days \<or> w \<in> set (groupWeeks (drop 7 days))"
      by (simp add: groupWeeks_Cons)
    then show ?thesis
    proof
      assume "w = take 7 days"
      with len show ?thesis by simp
    next
      assume "w \<in> set (groupWeeks (drop 7 days))"
      with dv show ?thesis by (rule "1.IH" [OF False])
    qed
  qed
qed

lemma month_interval:
  fixes y m :: int
  assumes m: "0 \<le> m" "m \<le> 11"
  defines "S \<equiv> DayFromYear y + daysBeforeMonth (leapDay y) m"
    and "E \<equiv> DayFromYear y + daysBeforeMonth (leapDay y) (m + 1) - 1"
  shows "S + 27 \<le> E" and "E \<le> S + 30"
    and "YearFromDay d = y \<and> MonthFromDay d = m \<longleftrightarrow> S \<le> d \<and> d \<le> E"
    and "DateFromDay S = 1"
proof -
  let ?L = "leapDay y"
  have b: "daysBeforeMonth ?L m + 28 \<le> daysBeforeMonth ?L (m + 1)"
    "daysBeforeMonth ?L (m + 1) \<le> daysBeforeMonth ?L m + 31"
    using daysBeforeMonth_bounds [OF m leapDay_cases [of y]] by simp_all
  show "S + 27 \<le> E" and "E \<le> S + 30" using b by (simp_all add: S_def E_def)
  have S1: "S = MakeDay y m 1" by (simp add: MakeDay_in_year [OF m] S_def)
  have one: "(1::int) \<le> daysBeforeMonth ?L (m + 1) - daysBeforeMonth ?L m" using b by simp
  show "DateFromDay S = 1"
    unfolding S1 using m _ one by (rule MakeDay_roundtrip) simp
  show "YearFromDay d = y \<and> MonthFromDay d = m \<longleftrightarrow> S \<le> d \<and> d \<le> E"
  proof
    assume ym: "YearFromDay d = y \<and> MonthFromDay d = m"
    have "MakeDay (YearFromDay d) (MonthFromDay d) (DateFromDay d + 0) = d + 0"
      by (rule MakeDay_DateFromDay)
    then have "d = DayFromYear y + daysBeforeMonth ?L m + DateFromDay d - 1"
      using ym by (simp add: MakeDay_in_year [OF m])
    moreover have "1 \<le> DateFromDay d"
      "DateFromDay d \<le> daysBeforeMonth ?L (m + 1) - daysBeforeMonth ?L m"
      using DateFromDay_bounds [of d] ym by simp_all
    ultimately show "S \<le> d \<and> d \<le> E" by (simp add: S_def E_def)
  next
    assume r: "S \<le> d \<and> d \<le> E"
    define n where "n = d - S + 1"
    have n: "1 \<le> n" "n \<le> daysBeforeMonth ?L (m + 1) - daysBeforeMonth ?L m"
      using r by (simp_all add: n_def S_def E_def)
    have d: "d = MakeDay y m n" by (simp add: MakeDay_in_year [OF m] n_def S_def)
    show "YearFromDay d = y \<and> MonthFromDay d = m"
      unfolding d using MakeDay_roundtrip [OF m n] by simp
  qed
qed

lemma map_Day_midnights: "map Day (map (\<lambda>x. x * msPerDay) ds) = ds"
  by (induction ds) (simp_all add: Day_midnight)

lemma month_ends:
  fixes month :: Date
  defines "S \<equiv> DayFromYear (getFullYear month)
      + daysBeforeMonth (leapDay (getFullYear month)) (getMonth month)"
    and "E \<equiv> DayFromYear (getFullYear month)
      + daysBeforeMonth (leapDay (getFullYear month)) (getMonth month + 1) - 1"
  shows "startOfMonth month = S * msPerDay"
    and "endOfMonth month = E * msPerDay + 86399999"
    and "Day (startOfMonth month) = S" and "Day (endOfMonth month) = E"
proof -
  have m: "0 \<le> getMonth month" "getMonth month \<le> 11"
    by (simp_all add: getMonth_def MonthFromDay_range)
  have "Day (setDate month 1) = MakeDay (getFullYear month) (getMonth month) 1"
    by (simp add: setDate_def Day_MakeDate TimeWithinDay_bounds)
  also have "\<dots> = S" by (simp add: MakeDay_in_year [OF m] S_def)
  finally show s: "startOfMonth month = S * msPerDay"
    by (simp add: startOfMonth_def setHours_midnight)
  have "Day (setFullYear month (getFullYear month) (getMonth month + 1) 0) =
      MakeDay (getFullYear month) (getMonth month + 1) 0"
    by (simp add: setFullYear_def Day_MakeDate TimeWithinDay_bounds)
  also have "\<dots> = E" by (simp add: MakeDay_next_month [OF m] E_def)
  finally show e: "endOfMonth month = E * msPerDay + 86399999"
    by (simp add: endOfMonth_def setHours_def MakeDate_def MakeTime_def Let_def)
  show "Day (startOfMonth month) = S" by (simp only: s Day_midnight)
  have "Day (MakeDate E 86399999) = E"
    by (rule Day_MakeDate) (simp_all add: msPerDay_def)
  then show "Day (endOfMonth month) = E" by (simp add: e MakeDate_def)
qed

lemma month_of_start:
  "Day (startOfMonth month) + 27 \<le> Day (endOfMonth month)"
  "sameMonth month d \<longleftrightarrow> Day (startOfMonth month) \<le> d \<and> d \<le> Day (endOfMonth month)"
  "getDate (startOfMonth month) = 1"
proof -
  have m: "0 \<le> getMonth month" "getMonth month \<le> 11"
    by (simp_all add: getMonth_def MonthFromDay_range)
  note i = month_interval [OF m, where y = "getFullYear month"]
  show "Day (startOfMonth month) + 27 \<le> Day (endOfMonth month)"
    using i(1) by (simp only: month_ends(3,4))
  show "sameMonth month d \<longleftrightarrow> Day (startOfMonth month) \<le> d \<and> d \<le> Day (endOfMonth month)"
    using i(3) [where d = d] by (simp only: month_ends(3,4) sameMonth_def)
  show "getDate (startOfMonth month) = 1"
    using i(4) by (simp only: getDate_def month_ends(3,4))
qed

lemma getDaysInMonth_days:
  fixes month :: Date
  defines "S \<equiv> Day (startOfMonth month)" and "E \<equiv> Day (endOfMonth month)"
  shows "\<exists>days. getDaysInMonth month b = Some (groupWeeks days)
    \<and> map Day days = (if b then [S - WeekDay S .. E + (6 - WeekDay E)] else [S .. E])"
proof -
  let ?start = "startOfMonth month"
  let ?end = "endOfMonth month"
  define f where "f = WeekDay S"
  define a where "a = 6 - WeekDay E"
  have f: "0 \<le> f" and a: "0 \<le> a"
    using WeekDay_range [of S] WeekDay_range [of E] by (simp_all add: f_def a_def)
  have st: "?start = S * msPerDay"
    by (simp add: S_def startOfMonth_def setHours_midnight Day_midnight)
  have en: "?end = E * msPerDay + 86399999"
    unfolding E_def month_ends(4) by (rule month_ends(2))
  have SE: "S \<le> E" using month_of_start(1) [of month] by (simp add: S_def E_def)
  have le: "\<not> ?start > ?end"
    unfolding st en msPerDay_def using SE by simp
  have gf: "getDay ?start = f" and ga: "6 - getDay ?end = a"
    by (simp_all add: getDay_def f_def a_def S_def E_def)
  have loop: "eachDayLoop (S * msPerDay) ?end = map (\<lambda>x. x * msPerDay) [S .. E]"
    using eachDayLoop_upto [of "S * msPerDay" ?end] by (simp add: Day_midnight E_def)
  have each: "eachDayOfInterval ?start ?end = Some (map (\<lambda>x. x * msPerDay) [S .. E])"
    using le loop by (simp add: eachDayOfInterval_def setHours_midnight S_def [symmetric])
  have pm: "Day (setDate ?start 0) = S - 1"
    using Day_setDate [of ?start "- 1"] month_of_start(3) [of month] by (simp add: S_def)
  have pre: "map Day (prependLoop (setDate ?start 0) (nat f)) = [S - f .. S - 1]"
    using f by (simp add: prependLoop_days pm)
  have nm: "Day (setDate ?end (getDate ?end + 1)) = E + 1"
    by (simp add: Day_setDate E_def)
  have app: "map Day (appendLoop (setDate ?end (getDate ?end + 1)) 0 (nat a)) = [E + 1 .. E + a]"
    using a by (simp add: appendLoop_days nm)
  have empty_pre: "\<not> 0 < f \<Longrightarrow> [S - f .. S - 1] = []" by simp
  have empty_app: "\<not> 0 < a \<Longrightarrow> [E + 1 .. E + a] = []" by simp
  have whole: "[S - f .. E + a] = [S - f .. S - 1] @ [S .. E] @ [E + 1 .. E + a]"
  proof -
    have "[S - f .. E + a] = [S - f .. S - 1] @ [S .. E + a]"
      using f a SE by (intro upto_split1) simp_all
    moreover have "[S .. E + a] = [S .. E] @ [E + 1 .. E + a]"
      using a SE by (intro upto_split2) simp_all
    ultimately show ?thesis by simp
  qed
  define P where "P = (if b \<and> 0 < f then prependLoop (setDate ?start 0) (nat f) else [])"
  define A where
    "A = (if b \<and> 0 < a then appendLoop (setDate ?end (getDate ?end + 1)) 0 (nat a) else [])"
  have g: "getDaysInMonth month b =
      Some (groupWeeks (P @ map (\<lambda>x. x * msPerDay) [S .. E] @ A))"
    by (simp add: getDaysInMonth_def Let_def each gf ga P_def A_def)
  have P: "map Day P = (if b then [S - f .. S - 1] else [])"
    using pre empty_pre by (simp add: P_def)
  have A: "map Day A = (if b then [E + 1 .. E + a] else [])"
    using app empty_app by (simp add: A_def)
  have "map Day (P @ map (\<lambda>x. x * msPerDay) [S .. E] @ A) =
      (if b then [S - f .. E + a] else [S .. E])"
    by (simp add: P A map_Day_midnights whole del: map_map)
  then show ?thesis using g unfolding f_def a_def by blast
qed

lemma count_list_distinct: "distinct xs \<Longrightarrow> x \<in> set xs \<Longrightarrow> count_list xs x = 1"
  by (induction xs) (auto simp: count_list_0_iff)

lemma week_span:
  fixes S E :: int
  assumes "S \<le> E"
  shows "7 dvd length [S - WeekDay S .. E + (6 - WeekDay E)]"
    and "WeekDay (S - WeekDay S) = 0" and "WeekDay (E + (6 - WeekDay E)) = 6"
proof -
  define qs where "qs = (S + 4) div 7"
  define qe where "qe = (E + 4) div 7"
  define ws where "ws = WeekDay S"
  define we where "we = WeekDay E"
  have s: "S + 4 = 7 * qs + ws"
    unfolding qs_def ws_def WeekDay_def by (rule mult_div_mod_eq [symmetric])
  have e: "E + 4 = 7 * qe + we"
    unfolding qe_def we_def WeekDay_def by (rule mult_div_mod_eq [symmetric])
  have q: "qs \<le> qe" unfolding qs_def qe_def using assms by (intro zdiv_mono1) simp_all
  have "E + (6 - we) - (S - ws) + 1 = 7 * (qe - qs + 1)"
    using s e by (simp add: algebra_simps)
  moreover have "0 \<le> qe - qs + 1" using q by simp
  ultimately have "length [S - ws .. E + (6 - we)] = 7 * nat (qe - qs + 1)"
    by (simp add: nat_mult_distrib)
  then show "7 dvd length [S - WeekDay S .. E + (6 - WeekDay E)]"
    by (simp only: ws_def we_def dvd_triv_left)
  have "S - ws + 4 = 0 + 7 * qs" using s by simp
  then have "WeekDay (S - ws) = 0" by (rule WeekDay_of) simp_all
  then show "WeekDay (S - WeekDay S) = 0" by (simp only: ws_def)
  have "E + (6 - we) + 4 = 6 + 7 * qe" using e by simp
  then have "WeekDay (E + (6 - we)) = 6" by (rule WeekDay_of) simp_all
  then show "WeekDay (E + (6 - WeekDay E)) = 6" by (simp only: we_def)
qed

text \<open>
  C8. For every month, \<open>getDaysInMonth month true\<close> returns a grid whose weeks all have
  seven days; the days of the grid, in order, are the consecutive days from the Sunday on
  or before the first of the month (at most six days before it) to a Saturday, and every
  day of the month occurs in it exactly once. \<open>getDaysInMonth month false\<close> returns the
  days of the month, from the first to the last and no other, in chunks of at least one
  and at most seven days.
\<close>

theorem getDaysInMonth_grid:
  "\<exists>weeks weeks'.
     getDaysInMonth month True = Some weeks
     \<and> (\<forall>w \<in> set weeks. length w = 7)
     \<and> map Day (concat weeks) =
         [Day (startOfMonth month) - getDay (startOfMonth month) ..
          Day (endOfMonth month) + (6 - getDay (endOfMonth month))]
     \<and> WeekDay (Day (startOfMonth month) - getDay (startOfMonth month)) = 0
     \<and> 0 \<le> getDay (startOfMonth month) \<and> getDay (startOfMonth month) < 7
     \<and> sameMonth month (Day (startOfMonth month)) \<and> getDate (startOfMonth month) = 1
     \<and> WeekDay (Day (endOfMonth month) + (6 - getDay (endOfMonth month))) = 6
     \<and> (\<forall>d. sameMonth month d \<longrightarrow> count_list (map Day (concat weeks)) d = 1)
     \<and> getDaysInMonth month False = Some weeks'
     \<and> (\<forall>w \<in> set weeks'. 0 < length w \<and> length w \<le> 7)
     \<and> map Day (concat weeks') = [Day (startOfMonth month) .. Day (endOfMonth month)]
     \<and> set (map Day (concat weeks')) = {d. sameMonth month d}"
proof -
  define S where "S = Day (startOfMonth month)"
  define E where "E = Day (endOfMonth month)"
  define f where "f = getDay (startOfMonth month)"
  define a where "a = 6 - getDay (endOfMonth month)"
  have SE: "S \<le> E" using month_of_start(1) [of month] by (simp add: S_def E_def)
  have gs: "f = WeekDay S" and ge: "a = 6 - WeekDay E"
    by (simp_all add: getDay_def f_def a_def S_def E_def)
  have fr: "0 \<le> f" "f < 7" and ar: "0 \<le> a"
    using WeekDay_range [of S] WeekDay_range [of E] by (simp_all add: gs ge)
  have inM: "\<And>d. sameMonth month d \<longleftrightarrow> S \<le> d \<and> d \<le> E"
    unfolding S_def E_def by (rule month_of_start(2))
  obtain days where
    g: "getDaysInMonth month True = Some (groupWeeks days)"
    and md0: "map Day days = (if True then [S - WeekDay S .. E + (6 - WeekDay E)] else [S .. E])"
    using getDaysInMonth_days [of month True] unfolding S_def E_def by blast
  have md: "map Day days = [S - f .. E + a]"
    using md0 by (simp only: gs ge if_True)
  obtain days' where
    g': "getDaysInMonth month False = Some (groupWeeks days')"
    and md0': "map Day days' = (if False then [S - WeekDay S .. E + (6 - WeekDay E)] else [S .. E])"
    using getDaysInMonth_days [of month False] unfolding S_def E_def by blast
  have md': "map Day days' = [S .. E]"
    using md0' by (simp only: if_False)
  have "length days = length (map Day days)" by simp
  also have "\<dots> = length [S - WeekDay S .. E + (6 - WeekDay E)]" by (simp only: md gs ge)
  finally have dv: "7 dvd length days"
    using week_span(1) [OF SE] by (simp only:)
  have c1: "\<forall>w \<in> set (groupWeeks days). length w = 7"
  proof
    fix w assume "w \<in> set (groupWeeks days)"
    with dv show "length w = 7" by (rule groupWeeks_full)
  qed
  have c2: "map Day (concat (groupWeeks days)) = [S - f .. E + a]"
    by (simp only: concat_groupWeeks md)
  have c3: "WeekDay (S - f) = 0"
    using week_span(2) [OF SE] by (simp only: gs)
  have c6: "WeekDay (E + a) = 6"
    using week_span(3) [OF SE] by (simp only: ge)
  have c5a: "sameMonth month S" using SE by (simp add: inM)
  have c5b: "getDate (startOfMonth month) = 1" by (rule month_of_start(3))
  have c7: "\<forall>d. sameMonth month d \<longrightarrow> count_list (map Day (concat (groupWeeks days))) d = 1"
  proof (intro allI impI)
    fix d
    assume "sameMonth month d"
    then have "S \<le> d \<and> d \<le> E" by (simp only: inM)
    with fr ar have "d \<in> set [S - f .. E + a]" by simp
    moreover have "distinct [S - f .. E + a]" by (rule distinct_upto)
    ultimately have "count_list [S - f .. E + a] d = 1" by (intro count_list_distinct)
    then show "count_list (map Day (concat (groupWeeks days))) d = 1" by (simp only: c2)
  qed
  have d1: "\<forall>w \<in> set (groupWeeks days'). 0 < length w \<and> length w \<le> 7"
  proof
    fix w assume "w \<in> set (groupWeeks days')"
    then show "0 < length w \<and> length w \<le> 7" by (rule groupWeeks_lengths)
  qed
  have d2: "map Day (concat (groupWeeks days')) = [S .. E]"
    by (simp only: concat_groupWeeks md')
  have "set [S .. E] = {d. sameMonth month d}"
    by (rule set_eqI) (simp add: inM)
  then have d3: "set (map Day (concat (groupWeeks days'))) = {d. sameMonth month d}"
    by (simp only: d2)
  have "getDaysInMonth month True = Some (groupWeeks days)
     \<and> (\<forall>w \<in> set (groupWeeks days). length w = 7)
     \<and> map Day (concat (groupWeeks days)) = [S - f .. E + a]
     \<and> WeekDay (S - f) = 0
     \<and> 0 \<le> f \<and> f < 7
     \<and> sameMonth month S \<and> getDate (startOfMonth month) = 1
     \<and> WeekDay (E + a) = 6
     \<and> (\<forall>d. sameMonth month d \<longrightarrow> count_list (map Day (concat (groupWeeks days))) d = 1)
     \<and> getDaysInMonth month False = Some (groupWeeks days')
     \<and> (\<forall>w \<in> set (groupWeeks days'). 0 < length w \<and> length w \<le> 7)
     \<and> map Day (concat (groupWeeks days')) = [S .. E]
     \<and> set (map Day (concat (groupWeeks days'))) = {d. sameMonth month d}"
    by (intro conjI g c1 c2 c3 fr c5a c5b c6 c7 g' d1 d2 d3)
  then show ?thesis
    unfolding S_def E_def f_def a_def by (intro exI)
qed

theorem getDaysInMonth_grid_witness:
  "map (map Day) (the (getDaysInMonth 8640000000 True)) =
     [[87, 88, 89, 90, 91, 92, 93], [94, 95, 96, 97, 98, 99, 100],
      [101, 102, 103, 104, 105, 106, 107], [108, 109, 110, 111, 112, 113, 114],
      [115, 116, 117, 118, 119, 120, 121]]
   \<and> list_all (\<lambda>w. length w = 7) (the (getDaysInMonth 8640000000 True))
   \<and> map getDate (concat (the (getDaysInMonth 8640000000 True))) =
     [29, 30, 31, 1, 2, 3, 4, 5, 6, 7, 8, 9, 10, 11, 12, 13, 14, 15, 16, 17, 18, 19, 20, 21,
      22, 23, 24, 25, 26, 27, 28, 29, 30, 1, 2]
   \<and> map (map Day) (the (getDaysInMonth 8640000000 False)) =
     [[90, 91, 92, 93, 94, 95, 96], [97, 98, 99, 100, 101, 102, 103],
      [104, 105, 106, 107, 108, 109, 110], [111, 112, 113, 114, 115, 116, 117],
      [118, 119]]
   \<and> list_all (\<lambda>w. 0 < length w \<and> length w \<le> 7) (the (getDaysInMonth 8640000000 False))"
proof -
  from getDaysInMonth_grid [of 8640000000] obtain weeks weeks' where
    t: "getDaysInMonth 8640000000 True = Some weeks" "\<forall>w \<in> set weeks. length w = 7"
    and f: "getDaysInMonth 8640000000 False = Some weeks'"
      "\<forall>w \<in> set weeks'. 0 < length w \<and> length w \<le> 7"
    by blast
  have a: "list_all (\<lambda>w. length w = 7) (the (getDaysInMonth 8640000000 True))"
    using t by (simp add: list_all_iff)
  have b: "list_all (\<lambda>w. 0 < length w \<and> length w \<le> 7) (the (getDaysInMonth 8640000000 False))"
    using f by (simp add: list_all_iff)
  have c: "map (map Day) (the (getDaysInMonth 8640000000 True)) =
     [[87, 88, 89, 90, 91, 92, 93], [94, 95, 96, 97, 98, 99, 100],
      [101, 102, 103, 104, 105, 106, 107], [108, 109, 110, 111, 112, 113, 114],
      [115, 116, 117, 118, 119, 120, 121]]"
    by code_simp
  have d: "map getDate (concat (the (getDaysInMonth 8640000000 True))) =
     [29, 30, 31, 1, 2, 3, 4, 5, 6, 7, 8, 9, 10, 11, 12, 13, 14, 15, 16, 17, 18, 19, 20, 21,
      22, 23, 24, 25, 26, 27, 28, 29, 30, 1, 2]"
    by code_simp
  have e: "map (map Day) (the (getDaysInMonth 8640000000 False)) =
     [[90, 91, 92, 93, 94, 95, 96], [97, 98, 99, 100, 101, 102, 103],
      [104, 105, 106, 107, 108, 109, 110], [111, 112, 113, 114, 115, 116, 117],
      [118, 119]]"
    by code_simp
  show ?thesis by (intro conjI c a d e b)
qed

end
